theory Spec2Isabelle
  imports Complex_Main "HOL-Library.List_Lexorder" "HOL-Library.Char_ord" "HOL-Library.Multiset"
begin

section \<open>Numbers, Maps and Sets of the dashboard script\<close>

text \<open>
  The embedding follows \<^verbatim>\<open>src/assets/app.js\<close>.  A JavaScript number is modelled as an
  exact rational: rounding, \<^verbatim>\<open>NaN\<close> and the infinities of IEEE doubles are outside the
  model, so an equation proved here is the one the script satisfies up to floating
  tolerance.  A value that may be \<^verbatim>\<open>undefined\<close> is an \<open>option\<close>.

  \<^verbatim>\<open>x || d\<close> on a number that may be missing: \<^verbatim>\<open>undefined\<close> and \<^verbatim>\<open>0\<close> are falsy and
  give \<open>d\<close>.
\<close>

definition js_or :: "'a::zero option \<Rightarrow> 'a \<Rightarrow> 'a" where
  "js_or x d = (case x of None \<Rightarrow> d | Some v \<Rightarrow> if v = 0 then d else v)"

text \<open>
  A JavaScript \<^verbatim>\<open>Map\<close> keeps its entries in insertion order, one per key: an association
  list.  \<^verbatim>\<open>m.get(k)\<close> is \<^term>\<open>map_of m k\<close>, \<^verbatim>\<open>m.has(k)\<close> is \<open>map_of m k \<noteq> None\<close>,
  \<^verbatim>\<open>m.keys()\<close> is \<open>map fst m\<close>, \<^verbatim>\<open>m.values()\<close> is \<open>map snd m\<close>.  \<^verbatim>\<open>m.set(k, v)\<close>
  overwrites the value of a key in place and appends a new key at the end.
\<close>

fun Map_set :: "('k \<times> 'v) list \<Rightarrow> 'k \<Rightarrow> 'v \<Rightarrow> ('k \<times> 'v) list" where
  "Map_set [] k v = [(k, v)]"
| "Map_set ((k', v') # m) k v =
     (if k' = k then (k, v) # m else (k', v') # Map_set m k v)"

text \<open>\<^verbatim>\<open>new Map(entries)\<close> sets the entries one after the other.\<close>

definition Map_new :: "('k \<times> 'v) list \<Rightarrow> ('k \<times> 'v) list" where
  "Map_new entries = foldl (\<lambda>m (k, v). Map_set m k v) [] entries"

text \<open>
  A JavaScript \<^verbatim>\<open>Set\<close> keeps its members in insertion order, each once: a list.
  \<^verbatim>\<open>s.has(x)\<close> is \<open>x \<in> set s\<close>, \<^verbatim>\<open>s.size\<close> is \<open>length s\<close>.
\<close>

definition Set_add :: "'a list \<Rightarrow> 'a \<Rightarrow> 'a list" where
  "Set_add s x = (if x \<in> set s then s else s @ [x])"

definition Set_new :: "'a list \<Rightarrow> 'a list" where
  "Set_new xs = foldl Set_add [] xs"

section \<open>Aggregation primitives\<close>

text \<open>\<^verbatim>\<open>function mean(arr) { return arr.reduce((a,b)=>a+b,0) / (arr.length || 1); }\<close>\<close>

definition mean :: "rat list \<Rightarrow> rat" where
  "mean arr = foldl (+) 0 arr / of_nat (js_or (Some (length arr)) 1)"

text \<open>
  \<^verbatim>\<open>function groupSum(arr, keyFn, valFn)\<close>: one \<^verbatim>\<open>m.set(k, (m.get(k) || 0) + v)\<close> for each
  element, starting from the empty Map.
\<close>

definition groupSum_step :: "('a \<Rightarrow> 'k) \<Rightarrow> ('a \<Rightarrow> rat) \<Rightarrow> ('k \<times> rat) list \<Rightarrow> 'a \<Rightarrow> ('k \<times> rat) list" where
  "groupSum_step keyFn valFn m x =
     (let k = keyFn x; v = valFn x in Map_set m k (js_or (map_of m k) 0 + v))"

definition groupSum :: "'a list \<Rightarrow> ('a \<Rightarrow> 'k) \<Rightarrow> ('a \<Rightarrow> rat) \<Rightarrow> ('k \<times> rat) list" where
  "groupSum arr keyFn valFn = foldl (groupSum_step keyFn valFn) [] arr"

text \<open>
  \<^verbatim>\<open>function toShareMap(map)\<close>: the total of the values, replaced by 1 when it is 0, divides
  every value.
\<close>

definition toShareMap :: "('k \<times> rat) list \<Rightarrow> ('k \<times> rat) list" where
  "toShareMap m =
     (let total = js_or (Some (foldl (+) 0 (map snd m))) 1
      in foldl (\<lambda>out (k, v). Map_set out k (v / total)) [] m)"

section \<open>Record model\<close>

text \<open>
  The rows of \<^verbatim>\<open>orders.csv\<close>, \<^verbatim>\<open>customers.csv\<close> and \<^verbatim>\<open>products.csv\<close> as the loader
  hands them over.  A numeric column that is empty or absent is \<open>None\<close>.
\<close>

record order =
  order_id :: string
  customer_id :: string
  product_id :: string
  order_date :: string
  quantity :: "rat option"
  unit_price :: "rat option"
  discount :: "rat option"
  channel :: string
  payment_method :: string

record customer =
  customer_id :: string
  segment :: string
  country :: string

record product =
  product_id :: string
  category :: string

text \<open>
  The enrichment writes five more properties on each order object: an enriched order is
  the order extended by them.  \<open>order_dt\<close> is the \<^verbatim>\<open>Date\<close>, as its time value in
  milliseconds since the epoch (an unparseable date, \<^verbatim>\<open>Invalid Date\<close>, is outside the
  model).
\<close>

record enriched = order +
  order_dt :: int
  revenue :: rat
  category :: string
  segment :: string
  country :: string

text \<open>
  What the script takes from the platform's \<^verbatim>\<open>Date\<close>: the parser \<^verbatim>\<open>new Date(s)\<close>, the
  local-time getters, the local-time constructor \<^verbatim>\<open>new Date(y, m, d, h, min)\<close> and the
  year of the current date.  They depend on the time zone of the browser and are
  parameters of the model.
\<close>

record dates =
  Date_parse :: "string \<Rightarrow> int"
  getFullYear :: "int \<Rightarrow> int"
  getMonth :: "int \<Rightarrow> nat"
  Date_local :: "int \<Rightarrow> nat \<Rightarrow> nat \<Rightarrow> nat \<Rightarrow> nat \<Rightarrow> int"
  Date_now_year :: int

text \<open>The three arrays that \<^verbatim>\<open>main\<close> holds; the script writes into them in place.\<close>

record 'o store =
  orders :: "'o list"
  customers :: "customer list"
  products :: "product list"

section \<open>Join and enrichment\<close>

definition parseDate :: "dates \<Rightarrow> string \<Rightarrow> int" where
  "parseDate env s = Date_parse env s"

definition prodById :: "product list \<Rightarrow> (string \<times> product) list" where
  "prodById ps = Map_new (map (\<lambda>p. (product.product_id p, p)) ps)"

definition custById :: "customer list \<Rightarrow> (string \<times> customer) list" where
  "custById cs = Map_new (map (\<lambda>c. (customer.customer_id c, c)) cs)"

text \<open>The body of \<^verbatim>\<open>orders.forEach(o => { ... })\<close>, lines 66 to 72.\<close>

definition enrich :: "dates \<Rightarrow> (string \<times> product) list \<Rightarrow> (string \<times> customer) list \<Rightarrow> order \<Rightarrow> enriched" where
  "enrich env pm cm od =
     (let p = map_of pm (order.product_id od);
          c = map_of cm (order.customer_id od)
      in order.extend od (enriched.fields
           (parseDate env (order_date od))
           (js_or (quantity od) 0 * js_or (unit_price od) 0)
           (case p of Some p' \<Rightarrow> product.category p' | None \<Rightarrow> ''Unknown'')
           (case c of Some c' \<Rightarrow> customer.segment c' | None \<Rightarrow> ''Unknown'')
           (case c of Some c' \<Rightarrow> customer.country c' | None \<Rightarrow> ''Unknown'')))"

text \<open>Lines 63 to 73: the two lookups are built, then every order object is written.\<close>

definition enrich_orders :: "dates \<Rightarrow> order store \<Rightarrow> enriched store" where
  "enrich_orders env s =
     \<lparr>orders = map (enrich env (prodById (products s)) (custById (customers s))) (orders s),
      customers = customers s,
      products = products s\<rparr>"

text \<open>
  Line 159: \<^verbatim>\<open>orders.sort((a,b)=>a.order_dt-b.order_dt)\<close> sorts the array in place, by
  time value, keeping the order of equal elements.
\<close>

definition sort_orders :: "enriched store \<Rightarrow> enriched store" where
  "sort_orders s =
     \<lparr>orders = sort_key order_dt (orders s), customers = customers s, products = products s\<rparr>"

text \<open>The arrays when \<^verbatim>\<open>main\<close> has computed its metrics.\<close>

definition main_store :: "dates \<Rightarrow> order store \<Rightarrow> enriched store" where
  "main_store env s = sort_orders (enrich_orders env s)"

section \<open>KPI computation\<close>

definition totalRev :: "enriched list \<Rightarrow> rat" where
  "totalRev es = foldl (\<lambda>s od. s + revenue od) 0 es"

text \<open>Lines 79 to 85: the order count of each customer; its keys are the buyers.\<close>

definition ordersByCust :: "enriched list \<Rightarrow> (string \<times> nat) list" where
  "ordersByCust es =
     foldl (\<lambda>m od. Map_set m (order.customer_id od) (js_or (map_of m (order.customer_id od)) 0 + 1)) [] es"

definition buyers :: "enriched list \<Rightarrow> string list" where
  "buyers es = map fst (ordersByCust es)"

text \<open>
  Lines 123 to 127: the promotional window runs from November 20 to November 30, 23:59, of
  the year of the first order of the array (of the current year when there is none).
\<close>

definition bfStart :: "dates \<Rightarrow> enriched list \<Rightarrow> int" where
  "bfStart env es =
     (let year = (case es of [] \<Rightarrow> Date_now_year env | od # _ \<Rightarrow> getFullYear env (order_dt od))
      in Date_local env year 10 20 0 0)"

definition bfEnd :: "dates \<Rightarrow> enriched list \<Rightarrow> int" where
  "bfEnd env es =
     (let year = (case es of [] \<Rightarrow> Date_now_year env | od # _ \<Rightarrow> getFullYear env (order_dt od))
      in Date_local env year 10 30 23 59)"

definition bfOrders :: "dates \<Rightarrow> enriched list \<Rightarrow> enriched list" where
  "bfOrders env es = filter (\<lambda>od. order_dt od \<ge> bfStart env es \<and> order_dt od \<le> bfEnd env es) es"

definition nonbfOrders :: "dates \<Rightarrow> enriched list \<Rightarrow> enriched list" where
  "nonbfOrders env es =
     filter (\<lambda>od. \<not> (order_dt od \<ge> bfStart env es \<and> order_dt od \<le> bfEnd env es)) es"

text \<open>
  Lines 131 and 132 apply one expression to the two sets:
  \<^verbatim>\<open>mean(xs.filter(o=> (o.discount||0) > 0).map(o=>o.discount||0)) || 0\<close>.
\<close>

definition avgDiscOnly :: "enriched list \<Rightarrow> rat" where
  "avgDiscOnly xs =
     js_or (Some (mean (map (\<lambda>od. js_or (discount od) 0)
                        (filter (\<lambda>od. js_or (discount od) 0 > 0) xs)))) 0"

definition bfAvgDiscOnly :: "dates \<Rightarrow> enriched list \<Rightarrow> rat" where
  "bfAvgDiscOnly env es = avgDiscOnly (bfOrders env es)"

definition nonbfAvgDiscOnly :: "dates \<Rightarrow> enriched list \<Rightarrow> rat" where
  "nonbfAvgDiscOnly env es = avgDiscOnly (nonbfOrders env es)"

section \<open>Bootstrap confidence interval\<close>







section \<open>Churn classifier\<close>

text \<open>Line 135: the latest order date, starting from \<^verbatim>\<open>new Date(0)\<close>.\<close>

definition endDate :: "enriched list \<Rightarrow> int" where
  "endDate es = foldl (\<lambda>mx od. if order_dt od > mx then order_dt od else mx) 0 es"

text \<open>
  \<^verbatim>\<open>d || new Date(0)\<close> for a \<^verbatim>\<open>Date\<close> that may be \<^verbatim>\<open>undefined\<close>: a \<^verbatim>\<open>Date\<close> object is never
  falsy.
\<close>

definition or_epoch :: "int option \<Rightarrow> int" where
  "or_epoch d = (case d of None \<Rightarrow> 0 | Some t \<Rightarrow> t)"

text \<open>Lines 139 to 144: the Map \<^verbatim>\<open>lastOrder\<close>, and the body of its loop.\<close>

definition lastOrder_step :: "(string \<times> int) list \<Rightarrow> enriched \<Rightarrow> (string \<times> int) list" where
  "lastOrder_step m od =
     (let dt = order_dt od;
          prev = or_epoch (map_of m (order.customer_id od))
      in if dt > prev then Map_set m (order.customer_id od) dt else m)"

definition lastOrder :: "enriched list \<Rightarrow> (string \<times> int) list" where
  "lastOrder es = foldl lastOrder_step [] es"

text \<open>Line 137.\<close>

definition churn_cutoff :: "enriched list \<Rightarrow> int \<Rightarrow> int" where
  "churn_cutoff es windowDays = endDate es - windowDays * 24 * 3600 * 1000"

text \<open>Lines 147 and 148: the test made for the buyer \<open>c\<close>.\<close>

definition is_churned :: "enriched list \<Rightarrow> int \<Rightarrow> string \<Rightarrow> bool" where
  "is_churned es windowDays c =
     (let l = or_epoch (map_of (lastOrder es) c)
      in l < churn_cutoff es windowDays)"

record churnResult =
  rate :: rat
  churned :: nat
  nbuyers :: nat
  cutoff :: int

text \<open>
  \<^verbatim>\<open>function computeChurn(windowDays)\<close>, closed over \<^verbatim>\<open>orders\<close>, \<^verbatim>\<open>buyers\<close> and
  \<^verbatim>\<open>endDate\<close>.  The field \<open>nbuyers\<close> is the property \<^verbatim>\<open>buyers\<close> of the returned object.
\<close>

definition computeChurn :: "enriched list \<Rightarrow> int \<Rightarrow> churnResult" where
  "computeChurn es windowDays =
     (let buyersSet = Set_new (buyers es);
          n = foldl (\<lambda>k c. if is_churned es windowDays c then k + 1 else k) 0 buyersSet
      in \<lparr>rate = of_nat n / of_nat (js_or (Some (length buyersSet)) 1),
          churned = n,
          nbuyers = length buyersSet,
          cutoff = churn_cutoff es windowDays\<rparr>)"

section \<open>Cohort retention matrix\<close>

text \<open>\<^verbatim>\<open>String(n)\<close> of a whole number, and \<^verbatim>\<open>s.padStart(n, c)\<close>.\<close>

function String_nat :: "nat \<Rightarrow> string" where
  "String_nat n =
     (if n < 10 then [''0123456789'' ! n]
      else String_nat (n div 10) @ [''0123456789'' ! (n mod 10)])"
  by pat_completeness auto
termination
  by (relation "measure id") auto

declare String_nat.simps [simp del]

text \<open>
  The same equation with the test as an argument, so that evaluation unfolds the
  recursive call only once the test is decided; the digits are computed on integers.
\<close>

fun String_nat_if :: "bool \<Rightarrow> nat \<Rightarrow> string" where
  "String_nat_if True n = [''0123456789'' ! n]"
| "String_nat_if False n =
     String_nat (nat (int n div 10)) @ [''0123456789'' ! nat (int n mod 10)]"

lemma String_nat_unfold [code]: "String_nat n = String_nat_if (n < 10) n"
  by (subst String_nat.simps) (simp add: nat_div_distrib nat_mod_distrib zdiv_int zmod_int)

definition String_int :: "int \<Rightarrow> string" where
  "String_int i = (if i < 0 then ''-'' @ String_nat (nat (- i)) else String_nat (nat i))"

definition padStart :: "string \<Rightarrow> nat \<Rightarrow> char \<Rightarrow> string" where
  "padStart s n c = replicate (n - length s) c @ s"

text \<open>Line 162: the key \<^verbatim>\<open>YYYY-MM\<close> of a date.\<close>

definition ym :: "dates \<Rightarrow> int \<Rightarrow> string" where
  "ym env d = String_int (getFullYear env d) @ ''-'' @ padStart (String_nat (getMonth env d + 1)) 2 CHR ''0''"

text \<open>
  Lines 158 to 161, over the array as line 159 sorts it.  The functions of this section
  take the enriched orders as they stand before that line.
\<close>

definition firstOrder_step :: "(string \<times> int) list \<Rightarrow> enriched \<Rightarrow> (string \<times> int) list" where
  "firstOrder_step m od =
     (if map_of m (order.customer_id od) = None
      then Map_set m (order.customer_id od) (order_dt od) else m)"

definition firstOrder :: "enriched list \<Rightarrow> (string \<times> int) list" where
  "firstOrder es = foldl firstOrder_step [] (sort_key order_dt es)"

text \<open>
  \<^verbatim>\<open>s || new Set()\<close> for a Set that may be \<^verbatim>\<open>undefined\<close>: a Set object is never falsy.
\<close>

definition or_empty :: "'a list option \<Rightarrow> 'a list" where
  "or_empty s = (case s of None \<Rightarrow> [] | Some xs \<Rightarrow> xs)"

text \<open>
  \<^verbatim>\<open>if (!m.has(key)) m.set(key, new Set()); m.get(key).add(x)\<close>, the step of the loops of
  lines 164 to 168 and 170 to 174.  After the first statement the key is in the Map, so
  that the second one cannot fail.
\<close>

definition add_member :: "(string \<times> string list) list \<Rightarrow> string \<Rightarrow> string \<Rightarrow> (string \<times> string list) list" where
  "add_member m key x =
     (let m' = (if map_of m key = None then Map_set m key [] else m)
      in case map_of m' key of
           None \<Rightarrow> m'
         | Some s \<Rightarrow> Map_set m' key (Set_add s x))"

definition cohortMembers :: "dates \<Rightarrow> enriched list \<Rightarrow> (string \<times> string list) list" where
  "cohortMembers env es =
     foldl (\<lambda>m (cid, dt). add_member m (ym env dt) cid) [] (firstOrder es)"

definition buyersByMonth :: "dates \<Rightarrow> enriched list \<Rightarrow> (string \<times> string list) list" where
  "buyersByMonth env es =
     foldl (\<lambda>m od. add_member m (ym env (order_dt od)) (order.customer_id od)) []
       (sort_key order_dt es)"

text \<open>Line 175: the keys of both Maps, each once, in the order of \<^verbatim>\<open>Array.prototype.sort\<close>.\<close>

definition months :: "dates \<Rightarrow> enriched list \<Rightarrow> string list" where
  "months env es =
     sort (Set_new (map fst (buyersByMonth env es) @ map fst (cohortMembers env es)))"

text \<open>Lines 176 to 184; \<^verbatim>\<open>null\<close> is \<open>None\<close>.\<close>

definition retention :: "dates \<Rightarrow> enriched list \<Rightarrow> rat option list list" where
  "retention env es =
     map (\<lambda>(iIdx, mi).
        let cohort = or_empty (map_of (cohortMembers env es) mi)
        in map (\<lambda>(jIdx, mj).
             if jIdx < iIdx then None
             else
               let buyersSet = or_empty (map_of (buyersByMonth env es) mj);
                   kept = length (filter (\<lambda>c. c \<in> set buyersSet) cohort)
               in Some (if length cohort \<noteq> 0 then of_nat kept / of_nat (length cohort) else 0))
           (enumerate 0 (months env es)))
       (enumerate 0 (months env es))"

section \<open>Example data\<close>

text \<open>
  A platform for the examples: dates are parsed from a table, and the calendar has twelve
  months of thirty days, counted from the epoch in milliseconds.
\<close>

definition ex_env :: dates where
  "ex_env =
     \<lparr>Date_parse = (\<lambda>s. if s = ''1970-01-05T10:00'' then 381600000
                        else if s = ''1970-01-03T10:00'' then 208800000 else 0),
      getFullYear = (\<lambda>t. 1970 + t div 31104000000),
      getMonth = (\<lambda>t. nat ((t div 2592000000) mod 12)),
      Date_local = (\<lambda>y m d h mi.
         (y - 1970) * 31104000000 + int m * 2592000000 + (int d - 1) * 86400000
           + int h * 3600000 + int mi * 60000),
      Date_now_year = 1970\<rparr>"

text \<open>
  Two orders, the later one first; the customer and the product of the first order are
  listed twice, those of the second order are not listed.
\<close>

definition ex_store :: "order store" where
  "ex_store =
     \<lparr>orders =
        [\<lparr>order_id = ''o1'', customer_id = ''c1'', product_id = ''p1'',
          order_date = ''1970-01-05T10:00'', quantity = Some 2, unit_price = Some 5,
          discount = None, channel = ''Web'', payment_method = ''Card''\<rparr>,
         \<lparr>order_id = ''o2'', customer_id = ''c9'', product_id = ''p9'',
          order_date = ''1970-01-03T10:00'', quantity = Some 1, unit_price = None,
          discount = Some (1 / 10), channel = ''Mobile'', payment_method = ''Cash''\<rparr>],
      customers =
        [\<lparr>customer_id = ''c1'', segment = ''Retail'', country = ''FR''\<rparr>,
         \<lparr>customer_id = ''c1'', segment = ''Pro'', country = ''DE''\<rparr>],
      products =
        [\<lparr>product_id = ''p1'', category = ''Toys''\<rparr>,
         \<lparr>product_id = ''p1'', category = ''Games''\<rparr>]\<rparr>"

text \<open>An enriched order of a customer at a time, with a revenue.\<close>

definition ex_order :: "string \<Rightarrow> int \<Rightarrow> rat \<Rightarrow> enriched" where
  "ex_order cid t r =
     \<lparr>order_id = ''o'', customer_id = cid, product_id = ''p'', order_date = ''-'',
      quantity = Some 1, unit_price = Some r, discount = None, channel = ''Web'',
      payment_method = ''Card'', order_dt = t, revenue = r, category = ''Unknown'',
      segment = ''Unknown'', country = ''Unknown''\<rparr>"

text \<open>
  Three buyers whose last orders are 10, 100 and 170 days after the epoch, and two buyers
  who ordered 10 days and 1 day before the epoch.
\<close>

definition ex_churn :: "enriched list" where
  "ex_churn =
     [ex_order ''a'' 864000000 10, ex_order ''b'' 8640000000 5, ex_order ''c'' 14688000000 20,
      ex_order ''b'' 6048000000 5]"

definition ex_early :: "enriched list" where
  "ex_early = [ex_order ''a'' (- 864000000) 10, ex_order ''b'' (- 86400000) 5]"

section \<open>The churn rule in the words of the specification\<close>

text \<open>
  The latest order date of the data set, the latest order date of a buyer, and the rule
  that a buyer is churned when the second is before the first minus the window, a day
  being 86400000 milliseconds.  They are compared with \<open>computeChurn\<close> below.
\<close>

definition spec_endDate :: "enriched list \<Rightarrow> int" where
  "spec_endDate es = Max (set (map order_dt es))"

definition spec_lastOrderDate :: "enriched list \<Rightarrow> string \<Rightarrow> int" where
  "spec_lastOrderDate es c = Max (set (map order_dt (filter (\<lambda>od. order.customer_id od = c) es)))"

definition spec_churned :: "enriched list \<Rightarrow> int \<Rightarrow> string \<Rightarrow> bool" where
  "spec_churned es windowDays c =
     (spec_lastOrderDate es c < spec_endDate es - windowDays * 86400000)"

section \<open>The cohorts in the words of the specification\<close>

text \<open>
  The date of the first order of a buyer; the cohort of a month, the buyers whose first
  order falls in it; and the buyers active in a month, those with an order in it.
\<close>

definition spec_firstOrderDate :: "enriched list \<Rightarrow> string \<Rightarrow> int" where
  "spec_firstOrderDate es c = Min (set (map order_dt (filter (\<lambda>od. order.customer_id od = c) es)))"

definition spec_cohort :: "dates \<Rightarrow> enriched list \<Rightarrow> string \<Rightarrow> string set" where
  "spec_cohort env es k =
     set (filter (\<lambda>c. ym env (spec_firstOrderDate es c) = k) (map order.customer_id es))"

definition spec_active :: "dates \<Rightarrow> enriched list \<Rightarrow> string \<Rightarrow> string set" where
  "spec_active env es k =
     set (map order.customer_id (filter (\<lambda>od. ym env (order_dt od) = k) es))"

text \<open>
  The example of the specification: a customer with two orders in the first month and one
  in the second, another with one order in the first month.
\<close>

definition ex_cohort :: "enriched list" where
  "ex_cohort =
     [ex_order ''C1'' 86400000 10, ex_order ''C1'' 172800000 20, ex_order ''C1'' 2678400000 30,
      ex_order ''C2'' 259200000 5]"

text \<open>
  The order of the calendar on two dates: the month of the first is before the month of
  the second.  The orders all have years of four digits, and months from 0 to 11 as
  \<^verbatim>\<open>getMonth\<close> numbers them.
\<close>

definition spec_month_before :: "dates \<Rightarrow> int \<Rightarrow> int \<Rightarrow> bool" where
  "spec_month_before env d1 d2 =
     (getFullYear env d1 < getFullYear env d2
      \<or> getFullYear env d1 = getFullYear env d2 \<and> getMonth env d1 < getMonth env d2)"

definition four_digit_years :: "dates \<Rightarrow> enriched list \<Rightarrow> bool" where
  "four_digit_years env es =
     list_all (\<lambda>od. 1000 \<le> getFullYear env (order_dt od) \<and> getFullYear env (order_dt od) \<le> 9999
                    \<and> getMonth env (order_dt od) < 12) es"

text \<open>
  An order of December 999 and an order of January 1000, of two customers, in the
  calendar of the examples.
\<close>

definition ex_y1k :: "enriched list" where
  "ex_y1k = [ex_order ''A'' (- 30173472000000) 10, ex_order ''B'' (- 30170880000000) 5]"

section \<open>Facts about Maps and Sets\<close>

lemma foldl_plus_sum_list: "foldl (+) a xs = a + sum_list (xs :: rat list)"
  by (induction xs arbitrary: a) (simp_all add: add.assoc)

lemma map_of_Map_set: "map_of (Map_set m k v) = (map_of m)(k \<mapsto> v)"
  by (induction m) (auto simp: fun_eq_iff)

lemma keys_Map_set:
  "map fst (Map_set m k v) = (if k \<in> fst ` set m then map fst m else map fst m @ [k])"
  by (induction m) (auto simp: rev_image_eqI)

lemma distinct_Map_set: "distinct (map fst m) \<Longrightarrow> distinct (map fst (Map_set m k v))"
  by (simp add: keys_Map_set)

lemma values_Map_set:
  "sum_list (map snd (Map_set m k v)) =
     sum_list (map snd m) - (case map_of m k of None \<Rightarrow> 0 | Some w \<Rightarrow> w) + (v :: rat)"
  by (induction m) auto

lemma js_or_0: "js_or x (0 :: rat) = (case x of None \<Rightarrow> 0 | Some w \<Rightarrow> w)"
  by (simp add: js_or_def split: option.splits)

lemma Map_set_fresh: "k \<notin> fst ` set m \<Longrightarrow> Map_set m k v = m @ [(k, v)]"
  by (induction m) auto

lemma dom_map_of_keys: "(map_of m k = None) = (k \<notin> fst ` set m)"
  by (simp add: map_of_eq_None_iff)

lemma groupSum_step_values:
  "sum_list (map snd (groupSum_step keyFn valFn m x)) = sum_list (map snd m) + valFn x"
  by (simp add: groupSum_step_def Let_def values_Map_set js_or_0)

lemma groupSum_fold_values:
  "sum_list (map snd (foldl (groupSum_step keyFn valFn) m arr)) =
     sum_list (map snd m) + sum_list (map valFn arr)"
  by (induction arr arbitrary: m) (simp_all add: groupSum_step_values add.assoc)

lemma groupSum_step_get:
  "map_of (groupSum_step keyFn valFn m x) k =
     (if keyFn x = k then Some ((case map_of m k of None \<Rightarrow> 0 | Some w \<Rightarrow> w) + valFn x)
      else map_of m k)"
  by (simp add: groupSum_step_def Let_def map_of_Map_set js_or_0)

lemma groupSum_fold_get:
  "map_of (foldl (groupSum_step keyFn valFn) m arr) k =
     (if k \<in> keyFn ` set arr
      then Some ((case map_of m k of None \<Rightarrow> 0 | Some w \<Rightarrow> w)
                 + sum_list (map valFn (filter (\<lambda>x. keyFn x = k) arr)))
      else map_of m k)"
proof (induction arr arbitrary: m)
  case Nil
  show ?case by simp
next
  case (Cons x arr)
  have none: "keyFn x \<notin> keyFn ` set arr \<Longrightarrow> filter (\<lambda>y. keyFn y = keyFn x) arr = []"
    by (auto simp: filter_empty_conv image_iff)
  show ?case
    by (auto simp: Cons.IH groupSum_step_get add.assoc none)
qed

lemma groupSum_fold_distinct:
  "distinct (map fst m) \<Longrightarrow> distinct (map fst (foldl (groupSum_step keyFn valFn) m arr))"
  by (induction arr arbitrary: m) (simp_all add: groupSum_step_def Let_def distinct_Map_set)

lemma share_fold:
  "distinct (map fst acc @ map fst m) \<Longrightarrow>
     foldl (\<lambda>out (k, v). Map_set out k (f v)) acc m = acc @ map (\<lambda>(k, v). (k, f v)) m"
proof (induction m arbitrary: acc)
  case Nil
  show ?case by simp
next
  case (Cons kv m)
  obtain k v where kv: "kv = (k, v)" by (cases kv)
  from Cons.prems kv have fresh: "k \<notin> fst ` set acc" by auto
  from Cons.prems kv have "distinct (map fst (acc @ [(k, f v)]) @ map fst m)" by auto
  from Cons.IH [OF this] show ?case
    by (simp add: kv Map_set_fresh [OF fresh])
qed

lemma toShareMap_eq:
  "distinct (map fst m) \<Longrightarrow>
     toShareMap m =
       map (\<lambda>(k, v). (k, v / (if sum_list (map snd m) = 0 then 1 else sum_list (map snd m)))) m"
proof -
  assume d: "distinct (map fst m)"
  let ?t = "if sum_list (map snd m) = 0 then 1 else sum_list (map snd m)"
  have t: "js_or (Some (foldl (+) 0 (map snd m))) 1 = ?t"
    by (simp add: js_or_def foldl_plus_sum_list)
  from d have "foldl (\<lambda>out (k, v). Map_set out k (v / ?t)) [] m = [] @ map (\<lambda>(k, v). (k, v / ?t)) m"
    by (intro share_fold) simp
  then show ?thesis
    by (simp only: toShareMap_def Let_def t append_Nil)
qed

section \<open>Facts about the enrichment\<close>


lemma Map_new_fold:
  "map_of (foldl (\<lambda>m (k, v). Map_set m k v) acc es) = map_of acc ++ map_of (rev es)"
proof (induction es arbitrary: acc)
  case Nil
  show ?case by simp
next
  case (Cons e es)
  obtain k v where e: "e = (k, v)" by (cases e)
  show ?case
    by (simp add: e Cons.IH map_of_Map_set fun_eq_iff map_add_def split: option.splits)
qed

lemma Map_new_get: "map_of (Map_new es) k = map_of (rev es) k"
  by (simp add: Map_new_def Map_new_fold)

lemma map_of_keyed: "map_of (map (\<lambda>p. (f p, p)) xs) k = find (\<lambda>p. f p = k) xs"
  by (induction xs) auto

lemma prodById_get:
  "map_of (prodById ps) k = find (\<lambda>p. product.product_id p = k) (rev ps)"
  by (simp add: prodById_def Map_new_get rev_map map_of_keyed)

lemma custById_get:
  "map_of (custById cs) k = find (\<lambda>c. customer.customer_id c = k) (rev cs)"
  by (simp add: custById_def Map_new_get rev_map map_of_keyed)

lemma truncate_enrich: "order.truncate (enrich env pm cm od) = od"
  by (simp add: enrich_def Let_def order.truncate_def order.extend_def)

lemma find_None_image: "k \<notin> f ` set xs \<Longrightarrow> find (\<lambda>p. f p = k) (rev xs) = None"
  by (auto simp: find_None_iff)

section \<open>Facts about means, discounts and churn counts\<close>


lemma mean_eq: "mean xs = (if xs = [] then 0 else sum_list xs / of_nat (length xs))"
  by (simp add: mean_def js_or_def foldl_plus_sum_list)

lemma js_or_same_0: "js_or (Some x) (0 :: rat) = x"
  by (simp add: js_or_def)

lemma avgDiscOnly_eq:
  "avgDiscOnly xs =
     (let ds = filter (\<lambda>d. d > 0) (map (\<lambda>od. case discount od of None \<Rightarrow> 0 | Some d \<Rightarrow> d) xs)
      in if ds = [] then 0 else sum_list ds / of_nat (length ds))"
proof -
  have "map (\<lambda>od. js_or (discount od) 0) (filter (\<lambda>od. js_or (discount od) 0 > 0) xs) =
        filter (\<lambda>d. d > 0) (map (\<lambda>od. case discount od of None \<Rightarrow> 0 | Some d \<Rightarrow> d) xs)"
    by (simp add: filter_map comp_def js_or_0)
  then show ?thesis
    by (simp add: avgDiscOnly_def js_or_same_0 mean_eq Let_def)
qed

lemma count_fold:
  "foldl (\<lambda>k c. if P c then k + 1 else k) (a :: nat) xs = a + length (filter P xs)"
  by (induction xs arbitrary: a) simp_all

lemma churned_eq:
  "churned (computeChurn es w) = length (filter (is_churned es w) (Set_new (buyers es)))"
  by (simp add: computeChurn_def Let_def count_fold)

lemma rate_eq:
  "rate (computeChurn es w) =
     of_nat (churned (computeChurn es w)) / of_nat (js_or (Some (nbuyers (computeChurn es w))) 1)"
  by (simp add: computeChurn_def Let_def)

lemma cutoff_antitone: "w1 \<le> w2 \<Longrightarrow> churn_cutoff es w2 \<le> churn_cutoff es w1"
  by (simp add: churn_cutoff_def)

lemma is_churned_antitone: "w1 \<le> w2 \<Longrightarrow> is_churned es w2 c \<Longrightarrow> is_churned es w1 c"
  using cutoff_antitone [of w1 w2 es] by (simp add: is_churned_def Let_def)

lemma length_filter_mono:
  "(\<And>x. P x \<Longrightarrow> Q x) \<Longrightarrow> length (filter P xs) \<le> length (filter Q xs)"
  by (induction xs) auto

section \<open>Facts about the bootstrap loop\<close>







section \<open>Facts about buyers, last orders and the churn result\<close>

lemma Set_add_props: "distinct s \<Longrightarrow> distinct (Set_add s x) \<and> set (Set_add s x) = insert x (set s)"
  by (auto simp: Set_add_def)

lemma Set_new_fold:
  "distinct acc \<Longrightarrow> distinct (foldl Set_add acc xs) \<and> set (foldl Set_add acc xs) = set acc \<union> set xs"
proof (induction xs arbitrary: acc)
  case Nil
  then show ?case by simp
next
  case (Cons x xs)
  from Cons.prems have d: "distinct (Set_add acc x)" and s: "set (Set_add acc x) = insert x (set acc)"
    by (simp_all add: Set_add_props)
  from Cons.IH [OF d] show ?case by (simp add: s)
qed

lemma Set_new_props: "distinct (Set_new xs) \<and> set (Set_new xs) = set xs"
  using Set_new_fold [of "[]" xs] by (simp add: Set_new_def)

lemma keys_set_Map_set: "fst ` set (Map_set m k v) = insert k (fst ` set m)"
proof -
  have "set (map fst (Map_set m k v)) = insert k (set (map fst m))"
    unfolding keys_Map_set by auto
  then show ?thesis by simp
qed

lemma keyed_fold_keys:
  "fst ` set (foldl (\<lambda>m x. Map_set m (kf x) (g m x)) acc xs) = fst ` set acc \<union> kf ` set xs"
  by (induction xs arbitrary: acc) (simp_all add: keys_set_Map_set)

lemma keyed_fold_distinct:
  "distinct (map fst acc) \<Longrightarrow> distinct (map fst (foldl (\<lambda>m x. Map_set m (kf x) (g m x)) acc xs))"
  by (induction xs arbitrary: acc) (simp_all add: distinct_Map_set)

lemma buyers_props: "distinct (buyers es) \<and> set (buyers es) = order.customer_id ` set es"
proof -
  have "distinct (map fst (ordersByCust es))"
    unfolding ordersByCust_def by (rule keyed_fold_distinct) simp
  moreover have "fst ` set (ordersByCust es) = order.customer_id ` set es"
    unfolding ordersByCust_def
    using keyed_fold_keys
      [of order.customer_id "\<lambda>m od. js_or (map_of m (order.customer_id od)) 0 + (1 :: nat)" "[]" es]
    by simp
  ultimately show ?thesis by (simp add: buyers_def)
qed

lemma endDate_fold:
  "foldl (\<lambda>mx od. if order_dt od > mx then order_dt od else mx) a es = Max (insert a (set (map order_dt es)))"
proof (induction es arbitrary: a)
  case Nil
  show ?case by simp
next
  case (Cons x es)
  have "Max (insert (if a < order_dt x then order_dt x else a) (set (map order_dt es))) =
        Max (insert a (insert (order_dt x) (set (map order_dt es))))"
    by (cases "set (map order_dt es) = {}") (auto simp: max_def)
  then show ?case by (simp add: Cons.IH)
qed

lemma endDate_Max: "endDate es = Max (insert 0 (set (map order_dt es)))"
  by (simp add: endDate_def endDate_fold)

lemma lastOrder_step_get:
  "or_epoch (map_of (lastOrder_step m od) c) =
   (if order.customer_id od = c then max (or_epoch (map_of m c)) (order_dt od)
    else or_epoch (map_of m c))"
  by (auto simp: lastOrder_step_def or_epoch_def Let_def map_of_Map_set max_def split: option.splits)

lemma lastOrder_fold:
  "or_epoch (map_of (foldl lastOrder_step m es) c) =
   Max (insert (or_epoch (map_of m c))
          (set (map order_dt (filter (\<lambda>od. order.customer_id od = c) es))))"
proof (induction es arbitrary: m)
  case Nil
  show ?case by simp
next
  case (Cons x es)
  let ?S = "set (map order_dt (filter (\<lambda>od. order.customer_id od = c) es))"
  have "Max (insert (max a b) ?S) = Max (insert a (insert b ?S))" for a b :: int
    by (cases "?S = {}") (auto simp: max_def)
  then show ?case
    by (simp add: Cons.IH lastOrder_step_get del: set_map Max_insert)
qed

lemma lastOrder_Max:
  "or_epoch (map_of (lastOrder es) c) =
     Max (insert 0 (set (map order_dt (filter (\<lambda>od. order.customer_id od = c) es))))"
  unfolding lastOrder_def lastOrder_fold by (simp add: or_epoch_def)

lemma Max_insert_floor:
  "finite S \<Longrightarrow> S \<noteq> {} \<Longrightarrow> \<forall>x\<in>S. (0 :: int) \<le> x \<Longrightarrow> Max (insert 0 S) = Max S"
  by (simp add: max_def Max_ge_iff)

lemma endDate_spec:
  assumes "es \<noteq> []" and "\<forall>od\<in>set es. 0 \<le> order_dt od"
  shows "endDate es = spec_endDate es"
  unfolding endDate_Max spec_endDate_def
  using assms by (intro Max_insert_floor) auto

lemma is_churned_spec:
  assumes "\<forall>od\<in>set es. 0 \<le> order_dt od" and "c \<in> order.customer_id ` set es"
  shows "is_churned es w c =
           (spec_lastOrderDate es c < endDate es - w * 86400000)"
proof -
  have "or_epoch (map_of (lastOrder es) c) = spec_lastOrderDate es c"
    unfolding lastOrder_Max spec_lastOrderDate_def
    using assms by (intro Max_insert_floor) (auto simp: filter_empty_conv)
  then show ?thesis
    by (simp add: is_churned_def Let_def churn_cutoff_def mult.commute)
qed

lemma nbuyers_eq: "nbuyers (computeChurn es w) = length (Set_new (buyers es))"
  by (simp add: computeChurn_def Let_def)

lemma cutoff_eq: "cutoff (computeChurn es w) = endDate es - w * 86400000"
  by (simp add: computeChurn_def Let_def churn_cutoff_def mult.commute)

lemma buyersSet_props:
  "distinct (Set_new (buyers es)) \<and> set (Set_new (buyers es)) = order.customer_id ` set es"
  using Set_new_props [of "buyers es"] buyers_props [of es] by simp

lemma ex_churn_eval:
  "computeChurn ex_churn 70 = \<lparr>rate = 1 / 3, churned = 1, nbuyers = 3, cutoff = 8640000000\<rparr>"
  "spec_lastOrderDate ex_churn ''b'' = 8640000000"
  "spec_endDate ex_churn = 14688000000"
  "is_churned ex_churn 70 ''a''" "\<not> is_churned ex_churn 70 ''b''"
  by code_simp+

section \<open>Facts about the arrays of main\<close>

lemma main_store_orders:
  "orders (main_store env s) = sort_key order_dt (orders (enrich_orders env s))"
  by (simp add: main_store_def sort_orders_def)

lemma enrich_orders_raw: "map order.truncate (orders (enrich_orders env s)) = orders s"
  by (simp add: enrich_orders_def truncate_enrich comp_def)

section \<open>Facts about the cohort Maps and the retention matrix\<close>

subsection \<open>add_member\<close>

lemma add_member_get:
  "map_of (add_member m key x) k =
     (if k = key then Some (Set_add (or_empty (map_of m key)) x) else map_of m k)"
  by (cases "map_of m key")
     (simp_all add: add_member_def Let_def map_of_Map_set or_empty_def)

lemma add_member_fold_None:
  "(map_of (foldl (\<lambda>m x. add_member m (kf x) (vf x)) m xs) k = None) =
     (map_of m k = None \<and> k \<notin> kf ` set xs)"
  by (induction xs arbitrary: m) (auto simp: add_member_get)

lemma add_member_fold_set:
  "set (or_empty (map_of (foldl (\<lambda>m x. add_member m (kf x) (vf x)) m xs) k)) =
     set (or_empty (map_of m k)) \<union> vf ` {x \<in> set xs. kf x = k}"
proof (induction xs arbitrary: m)
  case Nil
  show ?case by simp
next
  case (Cons x xs)
  have "set (or_empty (map_of (add_member m (kf x) (vf x)) k)) =
        (if kf x = k then insert (vf x) (set (or_empty (map_of m k))) else set (or_empty (map_of m k)))"
    by (auto simp: add_member_get or_empty_def Set_add_def)
  then show ?case
    by (auto simp: Cons.IH)
qed

lemma add_member_fold_distinct:
  "distinct (or_empty (map_of m k)) \<Longrightarrow>
     distinct (or_empty (map_of (foldl (\<lambda>m x. add_member m (kf x) (vf x)) m xs) k))"
proof (induction xs arbitrary: m)
  case Nil
  then show ?case by simp
next
  case (Cons x xs)
  from Cons.prems have "distinct (or_empty (map_of (add_member m (kf x) (vf x)) k))"
    by (auto simp: add_member_get or_empty_def Set_add_def)
  from Cons.IH [OF this] show ?case by simp
qed

subsection \<open>firstOrder\<close>

lemma firstOrder_step_get:
  "map_of (firstOrder_step m od) c =
     (case map_of m c of
        Some d \<Rightarrow> Some d
      | None \<Rightarrow> if order.customer_id od = c then Some (order_dt od) else None)"
  by (auto simp: firstOrder_step_def map_of_Map_set split: option.splits)

lemma firstOrder_fold_get:
  "map_of (foldl firstOrder_step m xs) c =
     (case map_of m c of
        Some d \<Rightarrow> Some d
      | None \<Rightarrow> map_option order_dt (find (\<lambda>od. order.customer_id od = c) xs))"
  by (induction xs arbitrary: m) (auto simp: firstOrder_step_get split: option.splits)

lemma firstOrder_fold_distinct:
  "distinct (map fst m) \<Longrightarrow> distinct (map fst (foldl firstOrder_step m xs))"
  by (induction xs arbitrary: m) (simp_all add: firstOrder_step_def distinct_Map_set)

lemma find_sorted_Min:
  "sorted (map f xs) \<Longrightarrow> find P xs = Some x \<Longrightarrow> f x = Min (set (map f (filter P xs)))"
proof (induction xs)
  case Nil
  then show ?case by simp
next
  case (Cons y ys)
  show ?case
  proof (cases "P y")
    case True
    with Cons.prems have x: "x = y" by simp
    from Cons.prems(1) have "\<And>b. b \<in> f ` set (filter P ys) \<Longrightarrow> f y \<le> b" by auto
    then have "Min (insert (f y) (f ` set (filter P ys))) = f y"
      by (intro Min_insert2) simp_all
    with True x show ?thesis by simp
  next
    case False
    with Cons show ?thesis by simp
  qed
qed

lemma find_SomeD: "find P xs = Some x \<Longrightarrow> x \<in> set xs \<and> P x"
  by (induction xs) (auto split: if_splits)

lemma or_empty_None: "or_empty None = []"
  by (simp add: or_empty_def)

lemma firstOrder_get:
  "map_of (firstOrder es) c =
     (if c \<in> order.customer_id ` set es then Some (spec_firstOrderDate es c) else None)"
proof (cases "find (\<lambda>od. order.customer_id od = c) (sort_key order_dt es)")
  case None
  then have "c \<notin> order.customer_id ` set es"
    by (auto simp: find_None_iff)
  with None show ?thesis
    by (simp add: firstOrder_def firstOrder_fold_get)
next
  case (Some x)
  then have "x \<in> set (sort_key order_dt es)" "order.customer_id x = c"
    by (auto dest: find_SomeD)
  then have mem: "c \<in> order.customer_id ` set es" by auto
  have "order_dt x = Min (set (map order_dt (filter (\<lambda>od. order.customer_id od = c) (sort_key order_dt es))))"
    using Some by (intro find_sorted_Min) simp_all
  also have "\<dots> = spec_firstOrderDate es c"
    by (simp add: spec_firstOrderDate_def)
  finally show ?thesis
    using Some mem by (simp add: firstOrder_def firstOrder_fold_get)
qed

lemma firstOrder_distinct: "distinct (map fst (firstOrder es))"
  by (simp add: firstOrder_def firstOrder_fold_distinct)

lemma firstOrder_entries:
  "((c, dt) \<in> set (firstOrder es)) =
     (c \<in> order.customer_id ` set es \<and> dt = spec_firstOrderDate es c)"
  using map_of_eq_Some_iff [OF firstOrder_distinct, of es c dt]
  by (auto simp: firstOrder_get split: if_splits)

lemma spec_firstOrderDate_attained:
  assumes "c \<in> order.customer_id ` set es"
  shows "\<exists>od\<in>set es. order.customer_id od = c \<and> order_dt od = spec_firstOrderDate es c"
proof -
  let ?S = "set (map order_dt (filter (\<lambda>od. order.customer_id od = c) es))"
  from assms have "?S \<noteq> {}" by (auto simp: filter_empty_conv)
  then have "Min ?S \<in> ?S" by (intro Min_in) simp_all
  then show ?thesis by (auto simp: spec_firstOrderDate_def)
qed

subsection \<open>The two Maps of Sets and the month axis\<close>

lemma cohortMembers_fold:
  "cohortMembers env es =
     foldl (\<lambda>m p. add_member m (ym env (snd p)) (fst p)) [] (firstOrder es)"
  by (simp add: cohortMembers_def case_prod_unfold)

lemma cohortMembers_set:
  "set (or_empty (map_of (cohortMembers env es) k)) = spec_cohort env es k"
proof -
  have "fst ` {p \<in> set (firstOrder es). ym env (snd p) = k} = spec_cohort env es k"
    by (auto simp: spec_cohort_def firstOrder_entries image_iff) 
  then show ?thesis
    by (simp add: cohortMembers_fold add_member_fold_set or_empty_None)
qed

lemma cohortMembers_distinct: "distinct (or_empty (map_of (cohortMembers env es) k))"
  unfolding cohortMembers_fold by (rule add_member_fold_distinct) (simp add: or_empty_None)

lemma cohortMembers_keys:
  "fst ` set (cohortMembers env es) \<subseteq> (\<lambda>od. ym env (order_dt od)) ` set es"
proof
  fix k assume "k \<in> fst ` set (cohortMembers env es)"
  then have "map_of (cohortMembers env es) k \<noteq> None"
    by (simp add: map_of_eq_None_iff)
  then have "k \<in> (\<lambda>p. ym env (snd p)) ` set (firstOrder es)"
    by (simp add: cohortMembers_fold add_member_fold_None)
  then obtain c where c: "c \<in> order.customer_id ` set es" and k: "k = ym env (spec_firstOrderDate es c)"
    by (auto simp: firstOrder_entries)
  from spec_firstOrderDate_attained [OF c]
  obtain od where od: "od \<in> set es" "order_dt od = spec_firstOrderDate es c" by blast
  then have "k = ym env (order_dt od)" by (simp add: k)
  with od(1) show "k \<in> (\<lambda>od. ym env (order_dt od)) ` set es" by blast
qed

lemma buyersByMonth_set:
  "set (or_empty (map_of (buyersByMonth env es) k)) = spec_active env es k"
proof -
  have "order.customer_id ` {od \<in> set (sort_key order_dt es). ym env (order_dt od) = k} =
        spec_active env es k"
    by (auto simp: spec_active_def)
  then show ?thesis
    by (simp add: buyersByMonth_def add_member_fold_set or_empty_None)
qed

lemma buyersByMonth_keys:
  "fst ` set (buyersByMonth env es) = (\<lambda>od. ym env (order_dt od)) ` set es"
proof -
  have "(k \<in> fst ` set (buyersByMonth env es)) = (k \<in> (\<lambda>od. ym env (order_dt od)) ` set es)" for k
    using add_member_fold_None
      [of "\<lambda>od. ym env (order_dt od)" order.customer_id "[]" "sort_key order_dt es" k]
    by (simp add: buyersByMonth_def map_of_eq_None_iff)
  then show ?thesis by blast
qed

lemma buyersByMonth_distinct: "distinct (or_empty (map_of (buyersByMonth env es) k))"
  unfolding buyersByMonth_def by (rule add_member_fold_distinct) (simp add: or_empty_None)

lemma months_props:
  "sorted (months env es) \<and> distinct (months env es)
   \<and> set (months env es) = (\<lambda>od. ym env (order_dt od)) ` set es"
proof -
  let ?ks = "map fst (buyersByMonth env es) @ map fst (cohortMembers env es)"
  have "set ?ks = (\<lambda>od. ym env (order_dt od)) ` set es"
    using buyersByMonth_keys [of env es] cohortMembers_keys [of env es] by auto
  then show ?thesis
    using Set_new_props [of ?ks] by (simp add: months_def)
qed

lemma months_index_order:
  assumes "i < length (months env es)" and "j < length (months env es)"
  shows "(j < i) = (months env es ! j < months env es ! i)"
proof -
  have s: "sorted_wrt (<) (months env es)"
    using months_props [of env es] by (simp add: strict_sorted_iff)
  show ?thesis
  proof
    assume "j < i"
    with s assms show "months env es ! j < months env es ! i"
      by (simp add: sorted_wrt_iff_nth_less)
  next
    assume lt: "months env es ! j < months env es ! i"
    show "j < i"
    proof (rule ccontr)
      assume "\<not> j < i"
      then have "i = j \<or> i < j" by auto
      then show False
      proof
        assume "i = j"
        with lt show False by simp
      next
        assume "i < j"
        with s assms have "months env es ! i < months env es ! j"
          by (simp add: sorted_wrt_iff_nth_less)
        with lt show False by simp
      qed
    qed
  qed
qed

lemma retention_length: "length (retention env es) = length (months env es)"
  by (simp add: retention_def)

lemma retention_row:
  assumes "i < length (months env es)"
  shows "retention env es ! i =
     map (\<lambda>(jIdx, mj).
             if jIdx < i then None
             else Some (if length (or_empty (map_of (cohortMembers env es) (months env es ! i))) \<noteq> 0
                        then of_nat (length (filter (\<lambda>c. c \<in> set (or_empty (map_of (buyersByMonth env es) mj)))
                                       (or_empty (map_of (cohortMembers env es) (months env es ! i)))))
                             / of_nat (length (or_empty (map_of (cohortMembers env es) (months env es ! i))))
                        else 0))
       (enumerate 0 (months env es))"
  using assms by (simp add: retention_def nth_enumerate_eq Let_def case_prod_unfold)

lemma kept_card:
  "distinct cohort \<Longrightarrow> length (filter (\<lambda>c. c \<in> set buyersSet) cohort) = card (set cohort \<inter> set buyersSet)"
proof -
  assume d: "distinct cohort"
  then have "distinct (filter (\<lambda>c. c \<in> set buyersSet) cohort)" by simp
  then have "length (filter (\<lambda>c. c \<in> set buyersSet) cohort) = card (set (filter (\<lambda>c. c \<in> set buyersSet) cohort))"
    by (simp only: distinct_card)
  also have "set (filter (\<lambda>c. c \<in> set buyersSet) cohort) = set cohort \<inter> set buyersSet"
    by auto
  finally show ?thesis .
qed

lemma retention_cell:
  assumes "i < length (months env es)" and "j < length (months env es)"
  shows "retention env es ! i ! j =
     (if j < i then None
      else Some (if spec_cohort env es (months env es ! i) = {} then 0
                 else of_nat (card (spec_cohort env es (months env es ! i)
                                     \<inter> spec_active env es (months env es ! j)))
                      / of_nat (card (spec_cohort env es (months env es ! i)))))"
proof -
  let ?cohort = "or_empty (map_of (cohortMembers env es) (months env es ! i))"
  let ?buyers = "or_empty (map_of (buyersByMonth env es) (months env es ! j))"
  have len: "length ?cohort = card (spec_cohort env es (months env es ! i))"
    using cohortMembers_distinct [of env es "months env es ! i"]
    by (simp add: distinct_card [symmetric] cohortMembers_set)
  have kept: "length (filter (\<lambda>c. c \<in> set ?buyers) ?cohort) =
        card (spec_cohort env es (months env es ! i) \<inter> spec_active env es (months env es ! j))"
    using kept_card [of ?cohort ?buyers] cohortMembers_distinct [of env es "months env es ! i"]
    by (simp add: cohortMembers_set buyersByMonth_set)
  have fin: "finite (spec_cohort env es (months env es ! i))"
    by (simp add: spec_cohort_def)
  have "retention env es ! i ! j =
     (if j < i then None
      else Some (if length ?cohort \<noteq> 0
                 then of_nat (length (filter (\<lambda>c. c \<in> set ?buyers) ?cohort)) / of_nat (length ?cohort)
                 else 0))"
    using assms by (simp add: retention_row nth_enumerate_eq case_prod_unfold)
  then show ?thesis
    using fin by (simp add: len kept)
qed

lemma ex_cohort_eval:
  "months ex_env ex_cohort = [''1970-01'', ''1970-02'']"
  "retention ex_env ex_cohort = [[Some 1, Some (1 / 2)], [None, Some 0]]"
  "spec_cohort ex_env ex_cohort ''1970-01'' = {''C1'', ''C2''}"
  "spec_cohort ex_env ex_cohort ''1970-02'' = {}"
  "spec_active ex_env ex_cohort ''1970-01'' = {''C1'', ''C2''}"
  "spec_active ex_env ex_cohort ''1970-02'' = {''C1''}"
  "map_of (ordersByCust ex_cohort) ''C2'' = Some 1"
  by code_simp+

section \<open>Facts about the month keys\<close>

text \<open>
  The keys \<^verbatim>\<open>YYYY-MM\<close> are compared as strings.  Decimal numerals of the same length are
  ordered as the numbers are, so that for years of four digits the order of the keys is
  the order of the calendar months.
\<close>

lemma digit_code: "n < 10 \<Longrightarrow> of_char (''0123456789'' ! n) = (48 + n :: nat)"
proof -
  assume "n < 10"
  then consider "n = 0" | "n = 1" | "n = 2" | "n = 3" | "n = 4" | "n = 5" | "n = 6" | "n = 7"
    | "n = 8" | "n = 9" by atomize_elim arith
  then show ?thesis by cases simp_all
qed

lemma digit_less: "a < 10 \<Longrightarrow> b < 10 \<Longrightarrow> (''0123456789'' ! a < ''0123456789'' ! b) = (a < b)"
  by (simp add: digit_code less_char_def)

lemma digit_eq: "a < 10 \<Longrightarrow> b < 10 \<Longrightarrow> (''0123456789'' ! a = ''0123456789'' ! b) = (a = b)"
proof -
  assume a: "a < 10" and b: "b < 10"
  have "(''0123456789'' ! a = ''0123456789'' ! b) =
        ((of_char (''0123456789'' ! a) :: nat) = of_char (''0123456789'' ! b))"
    by simp
  then show ?thesis by (simp only: digit_code [OF a] digit_code [OF b]) simp
qed

lemma String_nat_digit: "n < 10 \<Longrightarrow> String_nat n = [''0123456789'' ! n]"
  by (subst String_nat.simps) simp

lemma String_nat_step:
  "10 \<le> n \<Longrightarrow> String_nat n = String_nat (n div 10) @ [''0123456789'' ! (n mod 10)]"
  by (subst String_nat.simps) simp

lemma String_nat_not_Nil: "String_nat n \<noteq> []"
  by (subst String_nat.simps) simp

lemma two_digits_less:
  fixes q r q' r' :: nat
  assumes "r < 10" "r' < 10"
  shows "(10 * q + r < 10 * q' + r') = (q < q' \<or> q = q' \<and> r < r')"
  using assms by auto

lemma two_digits_eq:
  fixes q r q' r' :: nat
  assumes "r < 10" "r' < 10"
  shows "(10 * q + r = 10 * q' + r') = (q = q' \<and> r = r')"
proof
  assume e: "10 * q + r = 10 * q' + r'"
  have "q = q'"
  proof (rule ccontr)
    assume "q \<noteq> q'"
    then have "q < q' \<or> q' < q" by auto
    then show False using e assms by auto
  qed
  with e show "q = q' \<and> r = r'" by simp
next
  assume "q = q' \<and> r = r'"
  then show "10 * q + r = 10 * q' + r'" by simp
qed

lemma less_by_digits:
  "((a :: nat) < b) = (a div 10 < b div 10 \<or> a div 10 = b div 10 \<and> a mod 10 < b mod 10)"
  using two_digits_less [of "a mod 10" "b mod 10" "a div 10" "b div 10"] by simp

lemma eq_by_digits:
  "((a :: nat) = b) = (a div 10 = b div 10 \<and> a mod 10 = b mod 10)"
  using two_digits_eq [of "a mod 10" "b mod 10" "a div 10" "b div 10"] by simp

lemma String_nat_less:
  "length (String_nat a) = length (String_nat b) \<Longrightarrow>
     (String_nat a @ r < String_nat b @ s) = (a < b \<or> a = b \<and> r < s)"
proof (induction a arbitrary: b r s rule: String_nat.induct)
  case (1 a)
  show ?case
  proof (cases "a < 10")
    case True
    have b: "b < 10"
    proof (rule ccontr)
      assume "\<not> b < 10"
      then have "length (String_nat b) = length (String_nat (b div 10)) + 1"
        by (simp add: String_nat_step)
      with "1.prems" True String_nat_not_Nil [of "b div 10"] show False
        by (simp add: String_nat_digit)
    qed
    with True show ?thesis
      by (auto simp: String_nat_digit digit_less digit_eq)
  next
    case False
    have b: "\<not> b < 10"
    proof
      assume "b < 10"
      moreover from False have "length (String_nat a) = length (String_nat (a div 10)) + 1"
        by (simp add: String_nat_step)
      ultimately show False
        using "1.prems" String_nat_not_Nil [of "a div 10"] by (simp add: String_nat_digit)
    qed
    from False b "1.prems" have len: "length (String_nat (a div 10)) = length (String_nat (b div 10))"
      by (simp add: String_nat_step)
    let ?x = "''0123456789'' ! (a mod 10)" and ?y = "''0123456789'' ! (b mod 10)"
    have "(String_nat a @ r < String_nat b @ s) =
          (String_nat (a div 10) @ (?x # r) < String_nat (b div 10) @ (?y # s))"
      using False b by (simp add: String_nat_step)
    also have "\<dots> = (a div 10 < b div 10 \<or> a div 10 = b div 10 \<and> ?x # r < ?y # s)"
      using False len by (rule "1.IH")
    also have "(?x # r < ?y # s) = (a mod 10 < b mod 10 \<or> a mod 10 = b mod 10 \<and> r < s)"
      by (auto simp: digit_less digit_eq)
    finally show ?thesis
      using less_by_digits [of a b] eq_by_digits [of a b] by blast
  qed
qed

lemma two_digit_pad:
  "n < 100 \<Longrightarrow>
     padStart (String_nat n) 2 CHR ''0'' = [''0123456789'' ! (n div 10), ''0123456789'' ! (n mod 10)]"
proof (cases "n < 10")
  case True
  then show ?thesis by (simp add: padStart_def String_nat_digit)
next
  case False
  assume "n < 100"
  with False have "String_nat n = [''0123456789'' ! (n div 10), ''0123456789'' ! (n mod 10)]"
    by (simp add: String_nat_step String_nat_digit)
  then show ?thesis by (simp add: padStart_def)
qed

lemma month_key_less:
  assumes "a < 12" "b < 12"
  shows "(padStart (String_nat (a + 1)) 2 CHR ''0'' < padStart (String_nat (b + 1)) 2 CHR ''0'') = (a < b)"
proof -
  have d: "(a + 1) div 10 < 10" "(a + 1) mod 10 < 10" "(b + 1) div 10 < 10" "(b + 1) mod 10 < 10"
    using assms by simp_all
  have "(padStart (String_nat (a + 1)) 2 CHR ''0'' < padStart (String_nat (b + 1)) 2 CHR ''0'') =
        ((a + 1) div 10 < (b + 1) div 10
         \<or> (a + 1) div 10 = (b + 1) div 10 \<and> (a + 1) mod 10 < (b + 1) mod 10)"
    using assms by (simp add: two_digit_pad digit_less digit_eq d)
  also have "\<dots> = (a + 1 < b + 1)"
    by (rule less_by_digits [symmetric])
  finally show ?thesis by simp
qed

lemma String_nat_length_four: "1000 \<le> n \<Longrightarrow> n \<le> 9999 \<Longrightarrow> length (String_nat n) = 4"
proof -
  assume n: "1000 \<le> n" "n \<le> 9999"
  then have "String_nat n = String_nat (n div 10) @ [''0123456789'' ! (n mod 10)]"
    by (intro String_nat_step) simp
  moreover from n have "String_nat (n div 10) =
      String_nat (n div 10 div 10) @ [''0123456789'' ! (n div 10 mod 10)]"
    by (intro String_nat_step) simp
  moreover from n have "String_nat (n div 10 div 10) =
      String_nat (n div 10 div 10 div 10) @ [''0123456789'' ! (n div 10 div 10 mod 10)]"
    by (intro String_nat_step) simp
  moreover from n have "String_nat (n div 10 div 10 div 10) = [''0123456789'' ! (n div 10 div 10 div 10)]"
    by (intro String_nat_digit) simp
  ultimately show ?thesis by (simp only: length_append list.size)
qed

lemma ym_less_same_length:
  assumes "0 \<le> getFullYear env d1" "0 \<le> getFullYear env d2"
    and "length (String_int (getFullYear env d1)) = length (String_int (getFullYear env d2))"
    and "getMonth env d1 < 12" "getMonth env d2 < 12"
  shows "(ym env d1 < ym env d2) =
           (getFullYear env d1 < getFullYear env d2
            \<or> getFullYear env d1 = getFullYear env d2 \<and> getMonth env d1 < getMonth env d2)"
proof -
  let ?y1 = "nat (getFullYear env d1)" and ?y2 = "nat (getFullYear env d2)"
  let ?p1 = "padStart (String_nat (getMonth env d1 + 1)) 2 CHR ''0''"
  let ?p2 = "padStart (String_nat (getMonth env d2 + 1)) 2 CHR ''0''"
  have s: "String_int (getFullYear env d1) = String_nat ?y1" "String_int (getFullYear env d2) = String_nat ?y2"
    using assms(1,2) by (simp_all add: String_int_def)
  with assms(3) have len: "length (String_nat ?y1) = length (String_nat ?y2)" by simp
  have "(ym env d1 < ym env d2) =
        (String_nat ?y1 @ (CHR ''-'' # ?p1) < String_nat ?y2 @ (CHR ''-'' # ?p2))"
    by (simp add: ym_def s)
  also have "\<dots> = (?y1 < ?y2 \<or> ?y1 = ?y2 \<and> CHR ''-'' # ?p1 < CHR ''-'' # ?p2)"
    using len by (rule String_nat_less)
  also have "(CHR ''-'' # ?p1 < CHR ''-'' # ?p2) = (getMonth env d1 < getMonth env d2)"
    using month_key_less [OF assms(4,5)] by simp
  finally show ?thesis
    using assms(1,2) by auto
qed

lemma ym_chronological:
  assumes "1000 \<le> getFullYear env d1" "getFullYear env d1 \<le> 9999"
    and "1000 \<le> getFullYear env d2" "getFullYear env d2 \<le> 9999"
    and "getMonth env d1 < 12" "getMonth env d2 < 12"
  shows "(ym env d1 < ym env d2) =
           (getFullYear env d1 < getFullYear env d2
            \<or> getFullYear env d1 = getFullYear env d2 \<and> getMonth env d1 < getMonth env d2)"
proof -
  have "length (String_nat (nat (getFullYear env d1))) = 4"
       "length (String_nat (nat (getFullYear env d2))) = 4"
    using assms by (simp_all add: String_nat_length_four)
  then have "length (String_int (getFullYear env d1)) = length (String_int (getFullYear env d2))"
    using assms by (simp add: String_int_def)
  with assms show ?thesis
    by (intro ym_less_same_length) simp_all
qed

lemma months_key_of_order:
  assumes "i < length (months env es)"
  shows "\<exists>od\<in>set es. ym env (order_dt od) = months env es ! i"
proof -
  from assms have "months env es ! i \<in> set (months env es)" by simp
  then have "months env es ! i \<in> (\<lambda>od. ym env (order_dt od)) ` set es"
    using months_props [of env es] by simp
  then show ?thesis by auto
qed

lemma axis_order_chronological:
  assumes "i < length (months env es)" and "j < length (months env es)"
    and "four_digit_years env es"
    and "oi \<in> set es" and "oj \<in> set es"
    and "ym env (order_dt oi) = months env es ! i" and "ym env (order_dt oj) = months env es ! j"
  shows "(j < i) = spec_month_before env (order_dt oj) (order_dt oi)"
proof -
  from assms(3,4) have yi: "1000 \<le> getFullYear env (order_dt oi)" "getFullYear env (order_dt oi) \<le> 9999"
      "getMonth env (order_dt oi) < 12"
    by (auto simp: four_digit_years_def list_all_iff)
  from assms(3,5) have yj: "1000 \<le> getFullYear env (order_dt oj)" "getFullYear env (order_dt oj) \<le> 9999"
      "getMonth env (order_dt oj) < 12"
    by (auto simp: four_digit_years_def list_all_iff)
  have "(j < i) = (months env es ! j < months env es ! i)"
    by (rule months_index_order [OF assms(1,2)])
  also have "\<dots> = (ym env (order_dt oj) < ym env (order_dt oi))"
    by (simp only: assms(6,7))
  also have "\<dots> = spec_month_before env (order_dt oj) (order_dt oi)"
    unfolding spec_month_before_def
    by (rule ym_chronological [OF yj(1,2) yi(1,2) yj(3) yi(3)])
  finally show ?thesis .
qed

lemma ex_y1k_eval:
  "months ex_env ex_y1k = [''1000-01'', ''999-12'']"
  "retention ex_env ex_y1k = [[Some 1, Some 0], [None, Some 1]]"
  "ym ex_env (- 30173472000000) = ''999-12''"
  "ym ex_env (- 30170880000000) = ''1000-01''"
  "spec_month_before ex_env (- 30173472000000) (- 30170880000000)"
  "\<not> spec_month_before ex_env (- 30170880000000) (- 30173472000000)"
  by code_simp+

lemma ex_cohort_years:
  "four_digit_years ex_env ex_cohort"
  "ym ex_env 86400000 = ''1970-01''" "ym ex_env 2678400000 = ''1970-02''"
  "spec_month_before ex_env 86400000 2678400000"
  "\<not> spec_month_before ex_env 2678400000 86400000"
  by code_simp+

section \<open>Claims\<close>

subsection \<open>Aggregation primitives\<close>

text \<open>
  C1, as amended.  For a Map (its keys distinct), \<open>toShareMap\<close> divides every value by
  the total of the values, or by 1 when that total is 0.  The shares therefore sum to 1
  when the total is not 0, and to 0 when it is 0: for the empty Map, and also for a
  non-empty Map whose values cancel or are all 0.  The function has no failing branch.
\<close>

theorem toShareMap_sum:
  assumes "distinct (map fst (m :: ('k \<times> rat) list))"
  shows "toShareMap m =
           map (\<lambda>(k, v). (k, v / (if sum_list (map snd m) = 0 then 1 else sum_list (map snd m)))) m
         \<and> sum_list (map snd (toShareMap m)) = (if sum_list (map snd m) = 0 then 0 else 1)
         \<and> sum_list (map snd (toShareMap ([] :: ('k \<times> rat) list))) = 0"
proof -
  let ?t = "sum_list (map snd m)"
  let ?d = "if ?t = 0 then 1 else ?t"
  have "map snd (map (\<lambda>(k, v). (k, v / ?d)) m) = map (\<lambda>v. v / ?d) (map snd m)"
    by (induction m) auto
  moreover have "sum_list (map (\<lambda>v. v / ?d) xs) = sum_list xs / ?d" for xs
    by (induction xs) (simp_all add: add_divide_distrib)
  ultimately have "sum_list (map snd (toShareMap m)) = ?t / ?d"
    by (simp only: toShareMap_eq [OF assms])
  moreover have "toShareMap ([] :: ('k \<times> rat) list) = []"
    by (simp add: toShareMap_def)
  ultimately show ?thesis
    using toShareMap_eq [OF assms] by simp
qed

theorem toShareMap_sum_witness:
  "distinct (map fst [(''Web'', 3 :: rat), (''Mobile'', 1)])
   \<and> toShareMap [(''Web'', 3 :: rat), (''Mobile'', 1)] = [(''Web'', 3 / 4), (''Mobile'', 1 / 4)]
   \<and> sum_list (map snd (toShareMap [(''Web'', 3 :: rat), (''Mobile'', 1)])) = 1"
  using toShareMap_sum [of "[(''Web'', 3 :: rat), (''Mobile'', 1)]"] by simp

text \<open>
  C1 as stated fails on a non-empty Map of total 0: the only share is 0, the sum is 0 and
  not 1.
\<close>

theorem toShareMap_zero_total_counterexample:
  "distinct (map fst [(''Web'', 0 :: rat)]) \<and> [(''Web'', 0 :: rat)] \<noteq> []
   \<and> sum_list (map snd (toShareMap [(''Web'', 0 :: rat)])) = 0
   \<and> sum_list (map snd (toShareMap [(''Web'', 0 :: rat)])) \<noteq> 1"
  by (simp add: toShareMap_def js_or_def)

text \<open>
  C2.  The values of \<open>groupSum arr keyFn valFn\<close> sum to the sum of \<open>valFn\<close> over the
  records; summed as the script sums a Map's values, the groups of the revenue give
  \<open>totalRev\<close>, whatever the key function.  The keys are the distinct keys of the records,
  and each key holds the sum of \<open>valFn\<close> over exactly the records with that key.
\<close>

theorem groupSum_conserves:
  "sum_list (map snd (groupSum arr keyFn valFn)) = sum_list (map valFn arr)
   \<and> foldl (+) 0 (map snd (groupSum es keyFn' revenue)) = totalRev es
   \<and> distinct (map fst (groupSum arr keyFn valFn))
   \<and> set (map fst (groupSum arr keyFn valFn)) = keyFn ` set arr
   \<and> map_of (groupSum arr keyFn valFn) k =
       (if k \<in> keyFn ` set arr
        then Some (sum_list (map valFn (filter (\<lambda>x. keyFn x = k) arr))) else None)"
proof -
  have get: "map_of (groupSum arr keyFn valFn) k' =
       (if k' \<in> keyFn ` set arr
        then Some (sum_list (map valFn (filter (\<lambda>x. keyFn x = k') arr))) else None)" for k'
    by (simp add: groupSum_def groupSum_fold_get)
  have total: "totalRev es = sum_list (map revenue es)"
  proof -
    have "foldl (\<lambda>s od. s + revenue od) a es = a + sum_list (map revenue es)" for a
      by (induction es arbitrary: a) (simp_all add: add.assoc)
    then show ?thesis by (simp add: totalRev_def)
  qed
  have keys: "set (map fst (groupSum arr keyFn valFn)) = keyFn ` set arr"
  proof -
    have "(k' \<in> fst ` set (groupSum arr keyFn valFn)) = (k' \<in> keyFn ` set arr)" for k'
      using get [of k'] dom_map_of_keys [of "groupSum arr keyFn valFn" k']
      by (auto split: if_splits)
    then show ?thesis by auto
  qed
  show ?thesis
    by (simp add: get keys total foldl_plus_sum_list del: set_map)
       (simp add: groupSum_def groupSum_fold_values groupSum_fold_distinct)
qed

subsection \<open>Join and enrichment\<close>

text \<open>
  C3.  The enrichment writes one enriched order per order, in input order: stripped of
  the five new fields, the array is the input array.  The category of an order is that of
  the last product of the products array with the order's \<open>product_id\<close>, and
  \<open>''Unknown''\<close> when no product has it; segment and country are those of the last customer
  with the order's \<open>customer_id\<close>, and \<open>''Unknown''\<close> when no customer has it.
\<close>

theorem enrich_orders_left_join:
  "map order.truncate (orders (enrich_orders env s)) = orders s
   \<and> length (orders (enrich_orders env s)) = length (orders s)
   \<and> map category (orders (enrich_orders env s)) =
       map (\<lambda>od. case find (\<lambda>p. product.product_id p = order.product_id od) (rev (products s)) of
                   None \<Rightarrow> ''Unknown'' | Some p \<Rightarrow> product.category p) (orders s)
   \<and> map segment (orders (enrich_orders env s)) =
       map (\<lambda>od. case find (\<lambda>c. customer.customer_id c = order.customer_id od) (rev (customers s)) of
                   None \<Rightarrow> ''Unknown'' | Some c \<Rightarrow> customer.segment c) (orders s)
   \<and> map country (orders (enrich_orders env s)) =
       map (\<lambda>od. case find (\<lambda>c. customer.customer_id c = order.customer_id od) (rev (customers s)) of
                   None \<Rightarrow> ''Unknown'' | Some c \<Rightarrow> customer.country c) (orders s)
   \<and> (order.product_id od \<notin> product.product_id ` set (products s) \<longrightarrow>
        category (enrich env (prodById (products s)) (custById (customers s)) od) = ''Unknown'')
   \<and> (order.customer_id od \<notin> customer.customer_id ` set (customers s) \<longrightarrow>
        segment (enrich env (prodById (products s)) (custById (customers s)) od) = ''Unknown''
        \<and> country (enrich env (prodById (products s)) (custById (customers s)) od) = ''Unknown'')"
proof -
  let ?e = "enrich env (prodById (products s)) (custById (customers s))"
  have cat: "category (?e x) =
      (case find (\<lambda>p. product.product_id p = order.product_id x) (rev (products s)) of
         None \<Rightarrow> ''Unknown'' | Some p \<Rightarrow> product.category p)" for x
    by (simp add: enrich_def Let_def order.extend_def enriched.fields_def prodById_get)
  have seg: "segment (?e x) =
      (case find (\<lambda>c. customer.customer_id c = order.customer_id x) (rev (customers s)) of
         None \<Rightarrow> ''Unknown'' | Some c \<Rightarrow> customer.segment c)" for x
    by (simp add: enrich_def Let_def order.extend_def enriched.fields_def custById_get)
  have cou: "country (?e x) =
      (case find (\<lambda>c. customer.customer_id c = order.customer_id x) (rev (customers s)) of
         None \<Rightarrow> ''Unknown'' | Some c \<Rightarrow> customer.country c)" for x
    by (simp add: enrich_def Let_def order.extend_def enriched.fields_def custById_get)
  have tr: "map order.truncate (orders (enrich_orders env s)) = orders s"
    by (simp add: enrich_orders_def truncate_enrich comp_def)
  have m: "map category (orders (enrich_orders env s)) = map (\<lambda>x. category (?e x)) (orders s)"
       "map segment (orders (enrich_orders env s)) = map (\<lambda>x. segment (?e x)) (orders s)"
       "map country (orders (enrich_orders env s)) = map (\<lambda>x. country (?e x)) (orders s)"
    by (simp_all add: enrich_orders_def comp_def)
  have len: "length (orders (enrich_orders env s)) = length (orders s)"
    by (simp add: enrich_orders_def)
  show ?thesis
    by (simp only: tr len m cat seg cou) (simp add: find_None_image)
qed

theorem enrich_orders_left_join_witness:
  "''p9'' \<notin> product.product_id ` set (products ex_store)
   \<and> ''c9'' \<notin> customer.customer_id ` set (customers ex_store)
   \<and> map order_id (orders (enrich_orders ex_env ex_store)) = [''o1'', ''o2'']
   \<and> map category (orders (enrich_orders ex_env ex_store)) = [''Games'', ''Unknown'']
   \<and> map segment (orders (enrich_orders ex_env ex_store)) = [''Pro'', ''Unknown'']
   \<and> map country (orders (enrich_orders ex_env ex_store)) = [''DE'', ''Unknown'']"
proof -
  note join = enrich_orders_left_join [of ex_env ex_store "orders ex_store ! 1"]
  have "map order_id (orders (enrich_orders ex_env ex_store)) =
        map order_id (map order.truncate (orders (enrich_orders ex_env ex_store)))"
    by (simp add: comp_def order.truncate_def)
  also from join have "\<dots> = map order_id (orders ex_store)"
    by simp
  finally have ids: "map order_id (orders (enrich_orders ex_env ex_store)) = [''o1'', ''o2'']"
    by (simp add: ex_store_def)
  from join have "map category (orders (enrich_orders ex_env ex_store)) =
       map (\<lambda>od. case find (\<lambda>p. product.product_id p = order.product_id od) (rev (products ex_store)) of
                   None \<Rightarrow> ''Unknown'' | Some p \<Rightarrow> product.category p) (orders ex_store)"
    by blast
  then have cat: "map category (orders (enrich_orders ex_env ex_store)) = [''Games'', ''Unknown'']"
    by (simp add: ex_store_def)
  from join have "map segment (orders (enrich_orders ex_env ex_store)) =
       map (\<lambda>od. case find (\<lambda>c. customer.customer_id c = order.customer_id od) (rev (customers ex_store)) of
                   None \<Rightarrow> ''Unknown'' | Some c \<Rightarrow> customer.segment c) (orders ex_store)"
    by blast
  then have seg: "map segment (orders (enrich_orders ex_env ex_store)) = [''Pro'', ''Unknown'']"
    by (simp add: ex_store_def)
  from join have "map country (orders (enrich_orders ex_env ex_store)) =
       map (\<lambda>od. case find (\<lambda>c. customer.customer_id c = order.customer_id od) (rev (customers ex_store)) of
                   None \<Rightarrow> ''Unknown'' | Some c \<Rightarrow> customer.country c) (orders ex_store)"
    by blast
  then have cou: "map country (orders (enrich_orders ex_env ex_store)) = [''DE'', ''Unknown'']"
    by (simp add: ex_store_def)
  show ?thesis
    by (simp only: ids cat seg cou) (simp add: ex_store_def)
qed

subsection \<open>Promotional discount depth\<close>

text \<open>
  C8.  The average discount depth of a set of orders is the mean of the discounts that
  are greater than 0, an absent discount counting as 0 and so left out, and it is 0 when
  no discount is greater than 0; this is the value computed for the orders of the
  promotional window and for the others.  For the discounts 0, 0, 0.1 and 0.2 it is 0.15
  and not 0.075.
\<close>

theorem avgDiscOnly_discounted_only:
  "avgDiscOnly xs =
     (let ds = filter (\<lambda>d. d > 0) (map (\<lambda>od. case discount od of None \<Rightarrow> 0 | Some d \<Rightarrow> d) xs)
      in if ds = [] then 0 else sum_list ds / of_nat (length ds))
   \<and> bfAvgDiscOnly env es =
     (let ds = filter (\<lambda>d. d > 0)
                 (map (\<lambda>od. case discount od of None \<Rightarrow> 0 | Some d \<Rightarrow> d) (bfOrders env es))
      in if ds = [] then 0 else sum_list ds / of_nat (length ds))
   \<and> nonbfAvgDiscOnly env es =
     (let ds = filter (\<lambda>d. d > 0)
                 (map (\<lambda>od. case discount od of None \<Rightarrow> 0 | Some d \<Rightarrow> d) (nonbfOrders env es))
      in if ds = [] then 0 else sum_list ds / of_nat (length ds))
   \<and> (map discount ys = [Some 0, Some 0, Some (1 / 10), Some (2 / 10)] \<longrightarrow>
        avgDiscOnly ys = 15 / 100 \<and> avgDiscOnly ys \<noteq> 75 / 1000)"
proof -
  have ex: "avgDiscOnly ys = 15 / 100 \<and> avgDiscOnly ys \<noteq> 75 / 1000"
    if "map discount ys = [Some 0, Some 0, Some (1 / 10), Some (2 / 10)]"
  proof -
    have "map (\<lambda>od. case discount od of None \<Rightarrow> 0 | Some d \<Rightarrow> d) ys =
          map (\<lambda>x. case x of None \<Rightarrow> 0 | Some d \<Rightarrow> d) (map discount ys)"
      by (simp add: comp_def)
    then show ?thesis
      by (simp add: avgDiscOnly_eq that)
  qed
  show ?thesis
    using ex by (simp only: bfAvgDiscOnly_def nonbfAvgDiscOnly_def avgDiscOnly_eq [symmetric]) simp
qed

theorem avgDiscOnly_discounted_only_witness:
  "map discount (map (\<lambda>d. (ex_order ''c1'' 0 1)\<lparr>discount := d\<rparr>)
       [Some 0, Some 0, Some (1 / 10), Some (2 / 10)]) =
     [Some 0, Some 0, Some (1 / 10), Some (2 / 10)]
   \<and> avgDiscOnly (map (\<lambda>d. (ex_order ''c1'' 0 1)\<lparr>discount := d\<rparr>)
       [Some 0, Some 0, Some (1 / 10), Some (2 / 10)]) = 15 / 100"
  using avgDiscOnly_discounted_only
    [of "[]" ex_env "[]" "map (\<lambda>d. (ex_order ''c1'' 0 1)\<lparr>discount := d\<rparr>)
       [Some 0, Some 0, Some (1 / 10), Some (2 / 10)]"]
  by simp

subsection \<open>Bootstrap confidence interval\<close>



subsection \<open>Churn classifier\<close>

text \<open>
  C10.  For window lengths \<open>w1 \<le> w2\<close> over the same orders, a buyer churned at \<open>w2\<close> is
  churned at \<open>w1\<close>; the churned count and the rate at \<open>w2\<close> are at most those at \<open>w1\<close>,
  over the same number of buyers.
\<close>

theorem computeChurn_antitone:
  assumes "w1 \<le> w2"
  shows "(is_churned es w2 c \<longrightarrow> is_churned es w1 c)
         \<and> churned (computeChurn es w2) \<le> churned (computeChurn es w1)
         \<and> rate (computeChurn es w2) \<le> rate (computeChurn es w1)
         \<and> nbuyers (computeChurn es w2) = nbuyers (computeChurn es w1)"
proof -
  have c: "churned (computeChurn es w2) \<le> churned (computeChurn es w1)"
    unfolding churned_eq
    by (rule length_filter_mono) (rule is_churned_antitone [OF assms])
  have n: "nbuyers (computeChurn es w2) = nbuyers (computeChurn es w1)"
    by (simp add: computeChurn_def Let_def)
  have "rate (computeChurn es w2) \<le> rate (computeChurn es w1)"
    unfolding rate_eq n using c
    by (intro divide_right_mono) simp_all
  with c n is_churned_antitone [OF assms] show ?thesis by blast
qed

theorem computeChurn_antitone_witness:
  "(60 :: int) \<le> 90
   \<and> is_churned ex_churn 90 ''a'' \<and> is_churned ex_churn 60 ''a''
   \<and> churned (computeChurn ex_churn 90) = 1 \<and> churned (computeChurn ex_churn 60) = 2
   \<and> rate (computeChurn ex_churn 90) \<le> rate (computeChurn ex_churn 60)"
proof -
  have ev: "is_churned ex_churn 90 ''a''" "churned (computeChurn ex_churn 90) = 1"
    "churned (computeChurn ex_churn 60) = 2"
    by code_simp+
  have "(60 :: int) \<le> 90" by simp
  from computeChurn_antitone [OF this, of ex_churn "''a''"] ev show ?thesis by simp
qed

text \<open>
  C5, as amended.  For a non-empty set of orders none of which is dated before the epoch
  (the date \<^verbatim>\<open>new Date(0)\<close> from which the script starts both of its maxima), the cutoff
  is the latest order date minus the window, a buyer is counted as churned exactly when
  the latest of the buyer's order dates is strictly before the cutoff, so that a buyer
  whose latest order is at the cutoff is not churned; the churned count is the number of
  such buyers, each customer with an order being one buyer, and the rate is the churned
  count divided by the number of buyers.
\<close>

theorem computeChurn_after_epoch:
  assumes "es \<noteq> []" and "\<forall>od\<in>set es. 0 \<le> order_dt od"
  shows "cutoff (computeChurn es w) = spec_endDate es - w * 86400000
         \<and> (c \<in> order.customer_id ` set es \<longrightarrow> is_churned es w c = spec_churned es w c)
         \<and> (c \<in> order.customer_id ` set es \<and> spec_lastOrderDate es c = cutoff (computeChurn es w)
              \<longrightarrow> \<not> is_churned es w c)
         \<and> churned (computeChurn es w) = card {c \<in> order.customer_id ` set es. spec_churned es w c}
         \<and> nbuyers (computeChurn es w) = card (order.customer_id ` set es)
         \<and> 0 < nbuyers (computeChurn es w)
         \<and> rate (computeChurn es w) =
             of_nat (churned (computeChurn es w)) / of_nat (nbuyers (computeChurn es w))"
proof -
  note e = endDate_spec [OF assms]
  have cut: "cutoff (computeChurn es w) = spec_endDate es - w * 86400000"
    by (simp add: cutoff_eq e)
  have cls: "is_churned es w c' = spec_churned es w c'" if "c' \<in> order.customer_id ` set es" for c'
    using is_churned_spec [OF assms(2) that, of w] by (simp add: spec_churned_def e)
  have strict: "\<not> is_churned es w c"
    if "c \<in> order.customer_id ` set es" "spec_lastOrderDate es c = cutoff (computeChurn es w)"
    using cls [OF that(1)] that(2) by (simp add: spec_churned_def cut)
  have "distinct (filter (is_churned es w) (Set_new (buyers es)))"
    using buyersSet_props [of es] by simp
  then have "churned (computeChurn es w) = card (set (filter (is_churned es w) (Set_new (buyers es))))"
    by (simp only: churned_eq distinct_card)
  also have "set (filter (is_churned es w) (Set_new (buyers es))) =
             {c \<in> order.customer_id ` set es. spec_churned es w c}"
    using buyersSet_props [of es] cls by auto
  finally have cnt: "churned (computeChurn es w) =
      card {c \<in> order.customer_id ` set es. spec_churned es w c}" .
  have nb: "nbuyers (computeChurn es w) = card (order.customer_id ` set es)"
    using buyersSet_props [of es] by (simp add: nbuyers_eq distinct_card [symmetric])
  have pos: "0 < nbuyers (computeChurn es w)"
    using assms(1) by (simp add: nb card_gt_0_iff)
  have rt: "rate (computeChurn es w) =
             of_nat (churned (computeChurn es w)) / of_nat (nbuyers (computeChurn es w))"
    using pos by (simp add: rate_eq js_or_def)
  from cut cls strict cnt nb pos rt show ?thesis by blast
qed

theorem computeChurn_after_epoch_witness:
  "ex_churn \<noteq> [] \<and> list_all (\<lambda>od. 0 \<le> order_dt od) ex_churn
   \<and> cutoff (computeChurn ex_churn 70) = 8640000000
   \<and> spec_lastOrderDate ex_churn ''b'' = 8640000000
   \<and> \<not> is_churned ex_churn 70 ''b'' \<and> \<not> spec_churned ex_churn 70 ''b''
   \<and> churned (computeChurn ex_churn 70) = 1
   \<and> card {c \<in> order.customer_id ` set ex_churn. spec_churned ex_churn 70 c} = 1
   \<and> nbuyers (computeChurn ex_churn 70) = 3
   \<and> rate (computeChurn ex_churn 70) = 1 / 3"
proof -
  have ne: "ex_churn \<noteq> []" by (simp add: ex_churn_def)
  have pos: "\<forall>od\<in>set ex_churn. 0 \<le> order_dt od" by (simp add: ex_churn_def ex_order_def)
  have b: "''b'' \<in> order.customer_id ` set ex_churn" by (simp add: ex_churn_def ex_order_def)
  note t = computeChurn_after_epoch [OF ne pos, of 70 "''b''"]
  from t b have "is_churned ex_churn 70 ''b'' = spec_churned ex_churn 70 ''b''" by blast
  moreover from t have "churned (computeChurn ex_churn 70) =
      card {c \<in> order.customer_id ` set ex_churn. spec_churned ex_churn 70 c}" by blast
  ultimately show ?thesis
    using ne pos by (simp add: ex_churn_eval list_all_iff)
qed

text \<open>
  C5 as stated fails on orders dated before the epoch: the script's latest date is then
  the epoch and not the latest order date, and the buyer \<open>''a''\<close>, whose last order is
  more than five days before the latest order, is not counted as churned.
\<close>

theorem computeChurn_before_epoch_counterexample:
  "ex_early \<noteq> []
   \<and> spec_endDate ex_early = - 86400000 \<and> endDate ex_early = 0
   \<and> spec_lastOrderDate ex_early ''a'' = - 864000000
   \<and> spec_churned ex_early 5 ''a'' \<and> \<not> is_churned ex_early 5 ''a''
   \<and> churned (computeChurn ex_early 5) = 0"
  by code_simp

subsection \<open>Cohort retention matrix\<close>

text \<open>
  C6, as amended.  On the month axis, which is sorted as strings, without repetition, and
  holds the month keys of all orders, the cell of cohort row \<open>i\<close> and month column \<open>j\<close> is
  \<open>None\<close> exactly when \<open>j < i\<close>, that is when the key of month \<open>j\<close> is before the key of
  month \<open>i\<close>; when all orders have years of four digits this is exactly when month \<open>j\<close>
  is before month \<open>i\<close> in the calendar.  Every other cell is the number of buyers of the
  cohort of month \<open>i\<close> who are active in month \<open>j\<close>, divided by the size of the cohort,
  and 0 when the cohort is empty; the cohort of a month is the set of buyers whose first
  order falls in it, and the buyers active in a month are the customers with an order in
  it.  The matrix is square on the axis, and every month of the axis is the month of an
  order.
\<close>

theorem retention_upper_triangular:
  assumes "i < length (months env es)" and "j < length (months env es)"
  shows "retention env es ! i ! j =
           (if j < i then None
            else Some (if spec_cohort env es (months env es ! i) = {} then 0
                       else of_nat (card (spec_cohort env es (months env es ! i)
                                           \<inter> spec_active env es (months env es ! j)))
                            / of_nat (card (spec_cohort env es (months env es ! i)))))
         \<and> (retention env es ! i ! j = None) = (j < i)
         \<and> (j < i) = (months env es ! j < months env es ! i)
         \<and> sorted (months env es) \<and> distinct (months env es)
         \<and> set (months env es) = (\<lambda>od. ym env (order_dt od)) ` set es
         \<and> length (retention env es) = length (months env es)
         \<and> length (retention env es ! i) = length (months env es)
         \<and> (\<exists>od\<in>set es. ym env (order_dt od) = months env es ! i)
         \<and> (\<exists>od\<in>set es. ym env (order_dt od) = months env es ! j)
         \<and> (four_digit_years env es \<and> oi \<in> set es \<and> oj \<in> set es
              \<and> ym env (order_dt oi) = months env es ! i \<and> ym env (order_dt oj) = months env es ! j
              \<longrightarrow> (retention env es ! i ! j = None) = spec_month_before env (order_dt oj) (order_dt oi))"
proof -
  have len: "length (retention env es ! i) = length (months env es)"
    using assms(1) by (simp add: retention_row)
  have cell: "retention env es ! i ! j =
           (if j < i then None
            else Some (if spec_cohort env es (months env es ! i) = {} then 0
                       else of_nat (card (spec_cohort env es (months env es ! i)
                                           \<inter> spec_active env es (months env es ! j)))
                            / of_nat (card (spec_cohort env es (months env es ! i)))))"
    by (rule retention_cell [OF assms])
  then have null: "(retention env es ! i ! j = None) = (j < i)"
    by simp
  have chron: "(retention env es ! i ! j = None) = spec_month_before env (order_dt oj) (order_dt oi)"
    if "four_digit_years env es" "oi \<in> set es" "oj \<in> set es"
       "ym env (order_dt oi) = months env es ! i" "ym env (order_dt oj) = months env es ! j"
    using axis_order_chronological [OF assms that] null by simp
  from cell null chron len months_index_order [OF assms] months_props [of env es]
    months_key_of_order [OF assms(1)] months_key_of_order [OF assms(2)]
  show ?thesis
    by (simp only: retention_length) blast
qed

theorem retention_upper_triangular_witness:
  "(0 :: nat) < length (months ex_env ex_cohort) \<and> (1 :: nat) < length (months ex_env ex_cohort)
   \<and> months ex_env ex_cohort = [''1970-01'', ''1970-02'']
   \<and> spec_cohort ex_env ex_cohort ''1970-01'' = {''C1'', ''C2''}
   \<and> spec_active ex_env ex_cohort ''1970-02'' = {''C1''}
   \<and> four_digit_years ex_env ex_cohort
   \<and> retention ex_env ex_cohort ! 0 ! 1 = Some (1 / 2)
   \<and> \<not> spec_month_before ex_env 2678400000 86400000
   \<and> retention ex_env ex_cohort ! 1 ! 0 = None
   \<and> spec_month_before ex_env 86400000 2678400000
   \<and> retention ex_env ex_cohort ! 1 ! 1 = Some 0"
proof -
  let ?o1 = "ex_order ''C1'' 86400000 10" and ?o2 = "ex_order ''C1'' 2678400000 30"
  have l: "(0 :: nat) < length (months ex_env ex_cohort)" "(1 :: nat) < length (months ex_env ex_cohort)"
    by (simp_all add: ex_cohort_eval)
  have mem: "?o1 \<in> set ex_cohort" "?o2 \<in> set ex_cohort"
    by (simp_all add: ex_cohort_def)
  have dt: "order_dt ?o1 = 86400000" "order_dt ?o2 = 2678400000"
    by (simp_all add: ex_order_def)
  have keys: "ym ex_env (order_dt ?o1) = months ex_env ex_cohort ! 0"
             "ym ex_env (order_dt ?o2) = months ex_env ex_cohort ! 1"
    by (simp_all add: dt ex_cohort_years ex_cohort_eval)
  from retention_upper_triangular [OF l(1) l(2), of ?o1 ?o2]
  have a: "retention ex_env ex_cohort ! 0 ! 1 = Some (1 / 2)"
    by (simp add: ex_cohort_eval)
  from retention_upper_triangular [OF l(2) l(1), of ?o2 ?o1] mem keys ex_cohort_years(1)
  have b: "(retention ex_env ex_cohort ! 1 ! 0 = None) = spec_month_before ex_env (order_dt ?o1) (order_dt ?o2)"
    by blast
  then have b': "retention ex_env ex_cohort ! 1 ! 0 = None"
    by (simp add: dt ex_cohort_years)
  from retention_upper_triangular [OF l(2) l(2), of ?o2 ?o2]
  have c: "retention ex_env ex_cohort ! 1 ! 1 = Some 0"
    by (simp add: ex_cohort_eval)
  from l a b' c show ?thesis by (simp add: ex_cohort_eval ex_cohort_years)
qed

text \<open>
  C6 as stated fails for years that are not of four digits: the year of the key is not
  padded, so that the key of January 1000 is before the key of December 999.  The cell of
  the cohort of January 1000 in December 999, an earlier month, is 0 and not \<open>None\<close>, and
  the cell of the cohort of December 999 in January 1000, a later month, is \<open>None\<close>.
\<close>

theorem retention_year_999_counterexample:
  "months ex_env ex_y1k = [''1000-01'', ''999-12'']
   \<and> ym ex_env (- 30173472000000) = months ex_env ex_y1k ! 1
   \<and> ym ex_env (- 30170880000000) = months ex_env ex_y1k ! 0
   \<and> spec_month_before ex_env (- 30173472000000) (- 30170880000000)
   \<and> retention ex_env ex_y1k ! 0 ! 1 = Some 0
   \<and> \<not> spec_month_before ex_env (- 30170880000000) (- 30173472000000)
   \<and> retention ex_env ex_y1k ! 1 ! 0 = None"
  by (simp add: ex_y1k_eval)

text \<open>
  C7, as amended.  For a cohort row \<open>i\<close> with at least one member, the diagonal cell is
  always 1: the first order of a member is an order of the cohort's month, so every
  member is active in that month, whether or not the member ordered again.
\<close>

theorem retention_diagonal:
  assumes "i < length (months env es)" and "spec_cohort env es (months env es ! i) \<noteq> {}"
  shows "retention env es ! i ! i = Some 1
         \<and> spec_cohort env es (months env es ! i) \<subseteq> spec_active env es (months env es ! i)"
proof -
  let ?k = "months env es ! i"
  have sub: "spec_cohort env es ?k \<subseteq> spec_active env es ?k"
  proof
    fix c assume "c \<in> spec_cohort env es ?k"
    then have c: "c \<in> order.customer_id ` set es" and k: "ym env (spec_firstOrderDate es c) = ?k"
      by (auto simp: spec_cohort_def)
    from spec_firstOrderDate_attained [OF c]
    obtain od where "od \<in> set es" "order.customer_id od = c" "order_dt od = spec_firstOrderDate es c"
      by blast
    with k show "c \<in> spec_active env es ?k"
      by (auto simp: spec_active_def)
  qed
  then have "spec_cohort env es ?k \<inter> spec_active env es ?k = spec_cohort env es ?k" by blast
  moreover have "finite (spec_cohort env es ?k)" by (simp add: spec_cohort_def)
  ultimately show ?thesis
    using retention_cell [OF assms(1) assms(1)] assms(2) sub by simp
qed

theorem retention_diagonal_witness:
  "(0 :: nat) < length (months ex_env ex_cohort)
   \<and> spec_cohort ex_env ex_cohort (months ex_env ex_cohort ! 0) = {''C1'', ''C2''}
   \<and> retention ex_env ex_cohort ! 0 ! 0 = Some 1"
proof -
  have l: "(0 :: nat) < length (months ex_env ex_cohort)"
    by (simp add: ex_cohort_eval)
  have ne: "spec_cohort ex_env ex_cohort (months ex_env ex_cohort ! 0) \<noteq> {}"
    by (simp add: ex_cohort_eval)
  from retention_diagonal [OF l ne] l show ?thesis
    by (simp add: ex_cohort_eval)
qed

text \<open>
  C7 as stated fails: the customer \<open>''C2''\<close> is a member of the cohort of the first month
  and has a single order, so did not order again in that month, and the diagonal cell of
  the cohort is 1 all the same, not less than 1.
\<close>

theorem retention_diagonal_counterexample:
  "''C2'' \<in> spec_cohort ex_env ex_cohort (months ex_env ex_cohort ! 0)
   \<and> map_of (ordersByCust ex_cohort) ''C2'' = Some 1
   \<and> retention ex_env ex_cohort ! 0 ! 0 = Some 1"
  by (simp add: ex_cohort_eval)

subsection \<open>The arrays of main\<close>

text \<open>
  C9, as amended.  The script never writes the customers and products arrays.  It writes
  every order object once, adding the five derived fields and leaving the raw fields as
  they are, so that the enriched array without the new fields is the input array; and it
  sorts the orders array in place: at the end the array holds the same orders sorted by
  date, orders of the same date in their input order.
\<close>

theorem main_store_frame:
  "customers (main_store env s) = customers s
   \<and> products (main_store env s) = products s
   \<and> map order.truncate (orders (enrich_orders env s)) = orders s
   \<and> mset (map order.truncate (orders (main_store env s))) = mset (orders s)
   \<and> sorted (map order_dt (orders (main_store env s)))
   \<and> filter (\<lambda>e. order_dt e = t) (orders (main_store env s)) =
       filter (\<lambda>e. order_dt e = t) (orders (enrich_orders env s))"
proof -
  have "mset (map order.truncate (orders (main_store env s))) =
        mset (map order.truncate (orders (enrich_orders env s)))"
    by (simp add: main_store_orders)
  then have "mset (map order.truncate (orders (main_store env s))) = mset (orders s)"
    by (simp only: enrich_orders_raw)
  moreover have "customers (main_store env s) = customers s" "products (main_store env s) = products s"
    by (simp_all add: main_store_def sort_orders_def enrich_orders_def)
  ultimately show ?thesis
    by (simp add: enrich_orders_raw) (simp add: main_store_orders sort_key_stable)
qed

text \<open>
  C9 as stated fails: with a later order before an earlier one in the input, the orders
  array ends in another order than the input.
\<close>

theorem main_store_reorders_counterexample:
  "map order_id (orders ex_store) = [''o1'', ''o2'']
   \<and> map order_id (orders (main_store ex_env ex_store)) = [''o2'', ''o1'']"
  by code_simp

end
